theory Spec2Isabelle
  imports Complex_Main "HOL-Library.Word"
begin

section \<open>Outcomes of a call\<close>

text \<open>
  A Go call either returns or does not. The ways it does not return are the left
  summand of every result type below: the explicit \<^verbatim>\<open>panic("statsd: Tags only accepts
  an even number of arguments")\<close> of options.go (the spec's InvalidArgument), the
  run-time panics of Go (calling a nil function value or dereferencing a nil pointer,
  indexing or slicing out of range), a \<^verbatim>\<open>Lock\<close> on a mutex that is held, which
  never returns in a sequential run, and the fatal error of an \<^verbatim>\<open>Unlock\<close> on a mutex
  that is not held. The three remaining constructors are the Go
  \<^verbatim>\<open>error\<close> values the spec names: they are returned or handed to the error
  handler, never raised.
\<close>

datatype error =
    InvalidArgument string
  | NilDereference
  | IndexOutOfRange
  | Blocked
  | UnlockOfUnlockedMutex
  | ConnectionError string
  | WriteError string
  | CloseError string

definition andThen :: "error + 'a \<Rightarrow> ('a \<Rightarrow> error + 'b) \<Rightarrow> error + 'b" where
  "andThen m f = (case m of Inl e \<Rightarrow> Inl e | Inr x \<Rightarrow> f x)"

section \<open>Tags (options.go)\<close>

text \<open>\<^verbatim>\<open>type tag struct { K, V string }\<close>; a Go string is a sequence of bytes.\<close>

record tag =
  K :: string
  V :: string

text \<open>\<^verbatim>\<open>type TagFormat uint8\<close>, with \<^verbatim>\<open>InfluxDB = iota + 1\<close> and \<^verbatim>\<open>Datadog\<close> next.\<close>

type_synonym TagFormat = "8 word"

definition InfluxDB :: TagFormat where
  "InfluxDB = 1"

definition Datadog :: TagFormat where
  "Datadog = 2"

subsection \<open>joinFuncs\<close>

text \<open>
  The InfluxDB closure: for each tag write \<^verbatim>\<open>','\<close>, the key, \<^verbatim>\<open>'='\<close>, the value
  to the buffer. The first argument is the buffer so far.
\<close>

fun joinInfluxDB :: "string \<Rightarrow> tag list \<Rightarrow> string" where
  "joinInfluxDB buf [] = buf"
| "joinInfluxDB buf (t # ts) = joinInfluxDB (buf @ '','' @ K t @ ''='' @ V t) ts"

text \<open>
  The Datadog closure: the buffer starts as \<^verbatim>\<open>"|#"\<close>; a \<^verbatim>\<open>','\<close> is written before
  every tag but the first (the flag \<^verbatim>\<open>first\<close>), then the key, \<^verbatim>\<open>':'\<close>, the value.
\<close>

fun joinDatadog :: "string \<Rightarrow> bool \<Rightarrow> tag list \<Rightarrow> string" where
  "joinDatadog buf first [] = buf"
| "joinDatadog buf first (t # ts) =
     joinDatadog ((if first then buf else buf @ '','') @ K t @ '':'' @ V t) False ts"

text \<open>The map \<^verbatim>\<open>joinFuncs\<close>: a lookup of any other format yields the nil function.\<close>

definition joinFuncs :: "TagFormat \<Rightarrow> (tag list \<Rightarrow> string) option" where
  "joinFuncs tf =
     (if tf = InfluxDB then Some (joinInfluxDB [])
      else if tf = Datadog then Some (joinDatadog ''|#'' True)
      else None)"

definition joinTags :: "TagFormat \<Rightarrow> tag list \<Rightarrow> error + string" where
  "joinTags tf tags =
     (if length tags = 0 \<or> tf = 0 then Inr []
      else (case joinFuncs tf of
              None \<Rightarrow> Inl NilDereference
            | Some join \<Rightarrow> Inr (join tags)))"

subsection \<open>splitFuncs\<close>

text \<open>
  \<^verbatim>\<open>strings.Split(s, sep)\<close> for a separator of one byte, the only way the source
  calls it (\<^verbatim>\<open>","\<close>, \<^verbatim>\<open>"="\<close>, \<^verbatim>\<open>":"\<close>): the substrings between the separators,
  one more than there are separators, so never an empty list.
\<close>

fun Split :: "string \<Rightarrow> char \<Rightarrow> string list" where
  "Split [] sep = [[]]"
| "Split (c # cs) sep =
     (if c = sep then [] # Split cs sep
      else (let r = Split cs sep in (c # hd r) # tl r))"

text \<open>
  The loop over \<^verbatim>\<open>pairs\<close>: \<^verbatim>\<open>kv := strings.Split(pair, sep)\<close>, then
  \<^verbatim>\<open>tag{K: kv[0], V: kv[1]}\<close>. \<^verbatim>\<open>kv[1]\<close> panics when the pair holds no separator.
\<close>

fun splitPairs :: "char \<Rightarrow> string list \<Rightarrow> error + tag list" where
  "splitPairs sep [] = Inr []"
| "splitPairs sep (pair # pairs) =
     (let kv = Split pair sep in
      if length kv < 2 then Inl IndexOutOfRange
      else andThen (splitPairs sep pairs)
             (\<lambda>ts. Inr (\<lparr>K = kv ! 0, V = kv ! 1\<rparr> # ts)))"

text \<open>\<^verbatim>\<open>s = s[1:]\<close> and \<^verbatim>\<open>s = s[2:]\<close> panic on a string that is too short.\<close>

definition splitInfluxDB :: "string \<Rightarrow> error + tag list" where
  "splitInfluxDB s =
     (if length s < 1 then Inl IndexOutOfRange
      else splitPairs CHR ''='' (Split (drop 1 s) CHR '',''))"

definition splitDatadog :: "string \<Rightarrow> error + tag list" where
  "splitDatadog s =
     (if length s < 2 then Inl IndexOutOfRange
      else splitPairs CHR '':'' (Split (drop 2 s) CHR '',''))"

definition splitFuncs :: "TagFormat \<Rightarrow> (string \<Rightarrow> error + tag list) option" where
  "splitFuncs tf =
     (if tf = InfluxDB then Some splitInfluxDB
      else if tf = Datadog then Some splitDatadog
      else None)"

text \<open>\<^verbatim>\<open>splitTags\<close> returns \<^verbatim>\<open>nil\<close>, the slice of length 0, when the guard holds.\<close>

definition splitTags :: "TagFormat \<Rightarrow> string \<Rightarrow> error + tag list" where
  "splitTags tf tags =
     (if length tags = 0 \<or> tf = 0 then Inr []
      else (case splitFuncs tf of
              None \<Rightarrow> Inl NilDereference
            | Some split \<Rightarrow> split tags))"

subsection \<open>mergeTags\<close>

text \<open>
  The inner loop \<^verbatim>\<open>for j, _ := range output\<close>: every entry whose key is \<^verbatim>\<open>key\<close>
  gets the value \<^verbatim>\<open>val\<close> (there is no \<^verbatim>\<open>break\<close>), and \<^verbatim>\<open>exists\<close> records whether
  there was one.
\<close>

fun setVal :: "string \<Rightarrow> string \<Rightarrow> tag list \<Rightarrow> bool \<times> tag list" where
  "setVal key val [] = (False, [])"
| "setVal key val (t # ts) =
     (let (exists, ts') = setVal key val ts in
      if key = K t then (True, t\<lparr>V := val\<rparr> # ts') else (exists, t # ts'))"

text \<open>
  The outer loop \<^verbatim>\<open>for i := 0; i < len(newTags)/2; i++\<close>, reading
  \<^verbatim>\<open>newTags[2*i]\<close> and \<^verbatim>\<open>newTags[2*i+1]\<close> (both in range under the loop condition).
\<close>

function mergeLoop :: "string list \<Rightarrow> nat \<Rightarrow> tag list \<Rightarrow> tag list" where
  "mergeLoop newTags i output =
     (if i < length newTags div 2 then
        (let key = newTags ! (2 * i);
             val = newTags ! (2 * i + 1);
             (exists, output') = setVal key val output
         in mergeLoop newTags (i + 1)
              (if \<not> exists then output' @ [\<lparr>K = key, V = val\<rparr>] else output'))
      else output)"
  by pat_completeness auto
termination
  by (relation "measure (\<lambda>(newTags, i, output). length newTags div 2 - i)") auto

declare mergeLoop.simps [simp del]

definition mergeTags :: "tag list \<Rightarrow> string list \<Rightarrow> error + tag list" where
  "mergeTags tags newTags =
     (if length newTags mod 2 \<noteq> 0
        then Inl (InvalidArgument ''statsd: Tags only accepts an even number of arguments'')
      else if length newTags = 0 then Inr tags
      else Inr (mergeLoop newTags 0 (map (\<lambda>t. \<lparr>K = K t, V = V t\<rparr>) tags)))"


section \<open>Configuration and options (options.go)\<close>

text \<open>
  A \<^verbatim>\<open>float32\<close> is not a number, an infinity or a finite real; \<^verbatim>\<open>!=\<close> and \<^verbatim>\<open>>\<close>
  are the IEEE comparisons, under which every comparison with NaN but \<^verbatim>\<open>!=\<close> is false.
\<close>

datatype float32 = NaN | NegInf | Finite real | PosInf

fun f32_ne :: "float32 \<Rightarrow> float32 \<Rightarrow> bool" where
  "f32_ne NaN y = True"
| "f32_ne x NaN = True"
| "f32_ne x y = (x \<noteq> y)"

fun f32_gt :: "float32 \<Rightarrow> float32 \<Rightarrow> bool" where
  "f32_gt NaN y = False"
| "f32_gt x NaN = False"
| "f32_gt NegInf y = False"
| "f32_gt x NegInf = True"
| "f32_gt PosInf y = (y \<noteq> PosInf)"
| "f32_gt (Finite x) PosInf = False"
| "f32_gt (Finite x) (Finite y) = (y < x)"

text \<open>
  \<^verbatim>\<open>ErrorHandler func(error)\<close>: a callback is known by a number, \<^verbatim>\<open>nil\<close> is
  \<open>None\<close>. \<^verbatim>\<open>time.Duration\<close> is a number of nanoseconds. The fields of the three
  structs carry the name of their struct, since the options below have the names
  \<^verbatim>\<open>Prefix\<close>, \<^verbatim>\<open>Tags\<close>, \<^verbatim>\<open>Network\<close>, ... of the fields they set.
\<close>

type_synonym handler = nat

record clientConfig =
  Client_Muted :: bool
  Client_Rate :: float32
  Client_Prefix :: string
  Client_Tags :: "tag list"

record connConfig =
  Conn_Addr :: string
  Conn_ErrorHandler :: "handler option"
  Conn_FlushPeriod :: int
  Conn_MaxPacketSize :: int
  Conn_Network :: string
  Conn_TagFormat :: TagFormat

record config =
  Conn :: connConfig
  Client :: clientConfig

text \<open>
  \<^verbatim>\<open>type Option func(*config)\<close>: a function that updates the configuration, and
  that may panic as any Go function may.
\<close>

type_synonym Option = "config \<Rightarrow> error + config"

definition Address :: "string \<Rightarrow> Option" where
  "Address addr = (\<lambda>c. Inr (c\<lparr>Conn := (Conn c)\<lparr>Conn_Addr := addr\<rparr>\<rparr>))"

definition ErrorHandler :: "handler option \<Rightarrow> Option" where
  "ErrorHandler h = (\<lambda>c. Inr (c\<lparr>Conn := (Conn c)\<lparr>Conn_ErrorHandler := h\<rparr>\<rparr>))"

definition FlushPeriod :: "int \<Rightarrow> Option" where
  "FlushPeriod p = (\<lambda>c. Inr (c\<lparr>Conn := (Conn c)\<lparr>Conn_FlushPeriod := p\<rparr>\<rparr>))"

definition MaxPacketSize :: "int \<Rightarrow> Option" where
  "MaxPacketSize n = (\<lambda>c. Inr (c\<lparr>Conn := (Conn c)\<lparr>Conn_MaxPacketSize := n\<rparr>\<rparr>))"

definition Network :: "string \<Rightarrow> Option" where
  "Network network = (\<lambda>c. Inr (c\<lparr>Conn := (Conn c)\<lparr>Conn_Network := network\<rparr>\<rparr>))"

definition Mute :: "bool \<Rightarrow> Option" where
  "Mute b = (\<lambda>c. Inr (c\<lparr>Client := (Client c)\<lparr>Client_Muted := b\<rparr>\<rparr>))"

definition SampleRate :: "float32 \<Rightarrow> Option" where
  "SampleRate rate = (\<lambda>c. Inr (c\<lparr>Client := (Client c)\<lparr>Client_Rate := rate\<rparr>\<rparr>))"

text \<open>\<^verbatim>\<open>strings.TrimSuffix(s, suffix)\<close>.\<close>

definition TrimSuffix :: "string \<Rightarrow> string \<Rightarrow> string" where
  "TrimSuffix s suffix =
     (if length suffix \<le> length s \<and> drop (length s - length suffix) s = suffix
      then take (length s - length suffix) s else s)"

definition Prefix :: "string \<Rightarrow> Option" where
  "Prefix p = (\<lambda>c. Inr (c\<lparr>Client := (Client c)
     \<lparr>Client_Prefix := Client_Prefix (Client c) @ TrimSuffix p ''.'' @ ''.''\<rparr>\<rparr>))"

definition TagsFormat :: "TagFormat \<Rightarrow> Option" where
  "TagsFormat tf = (\<lambda>c. Inr (c\<lparr>Conn := (Conn c)\<lparr>Conn_TagFormat := tf\<rparr>\<rparr>))"

text \<open>
  \<^verbatim>\<open>Tags\<close> panics before it returns an option when the number of strings is odd;
  the option it returns calls \<^verbatim>\<open>mergeTags([]tag{}, tags)\<close>.
\<close>

definition Tags :: "string list \<Rightarrow> error + Option" where
  "Tags tags =
     (if length tags mod 2 \<noteq> 0
        then Inl (InvalidArgument ''statsd: Tags only accepts an even number of arguments'')
      else Inr (\<lambda>c. if length tags = 0 then Inr c
                    else andThen (mergeTags [] tags)
                           (\<lambda>ts. Inr (c\<lparr>Client := (Client c)\<lparr>Client_Tags := ts\<rparr>\<rparr>))))"

text \<open>The loop \<^verbatim>\<open>for _, o := range opts { o(conf) }\<close> of \<^verbatim>\<open>New\<close> and \<^verbatim>\<open>Clone\<close>.\<close>

fun applyOpts :: "Option list \<Rightarrow> config \<Rightarrow> error + config" where
  "applyOpts [] conf = Inr conf"
| "applyOpts (opt # opts) conf = andThen (opt conf) (applyOpts opts)"

section \<open>Clients and their connection (statsd.go)\<close>

text \<open>
  \<^verbatim>\<open>type Client struct\<close>. The field \<^verbatim>\<open>conn *conn\<close> is a pointer: an address of
  the store below, or \<^verbatim>\<open>nil\<close>. No method of statsd.go assigns to a field of a
  \<^verbatim>\<open>Client\<close> after \<^verbatim>\<open>New\<close> or \<^verbatim>\<open>Clone\<close> has returned it, so a client is a value.
\<close>

type_synonym addr = nat

record Client =
  conn :: "addr option"
  muted :: bool
  rate :: float32
  prefix :: string
  tagFormat :: TagFormat
  tags :: "tag list"

text \<open>
  Modelled from the spec: the Transport, an open writable network connection with a
  close operation (sections 2 and 4.5). \<^verbatim>\<open>write(bytes)\<close> is one best-effort send that
  may fail independently per call; \<open>written\<close> keeps the bytes of every write in order,
  \<open>writeFault\<close> says which writes fail and why, \<open>closeCalls\<close> counts the calls of
  close and \<open>closeFault\<close> says whether closing fails.
\<close>

record Transport =
  written :: "string list"
  writeFault :: "nat \<Rightarrow> string option"
  closeCalls :: nat
  closeFault :: "string option"

text \<open>Modelled from the spec: \<^verbatim>\<open>write(bytes)\<close> of the Transport, one attempt to send.\<close>

definition transportWrite :: "Transport \<Rightarrow> string \<Rightarrow> Transport \<times> error option" where
  "transportWrite t bytes =
     (t\<lparr>written := written t @ [bytes]\<rparr>,
      map_option WriteError (writeFault t (length (written t))))"

text \<open>Modelled from the spec: the close operation of the Transport.\<close>

definition transportClose :: "Transport \<Rightarrow> Transport \<times> error option" where
  "transportClose t = (t\<lparr>closeCalls := closeCalls t + 1\<rparr>, map_option CloseError (closeFault t))"

text \<open>
  Modelled from the spec: the Packet Buffer state of section 3, \<open>pendingBytes\<close> and
  \<open>maxSize\<close>, the callback \<open>errorHandler\<close> of the Error Sink, and \<open>handled\<close>, the
  errors the Error Sink has forwarded to it. They are fields of \<^verbatim>\<open>type conn struct\<close>,
  whose declaration is not among the sources; the other four fields are those that
  statsd.go reads and writes: \<^verbatim>\<open>tagFormat\<close>, \<^verbatim>\<open>mu\<close> (a mutex: held or not),
  \<^verbatim>\<open>w\<close> (the Transport) and \<^verbatim>\<open>closed\<close>.
\<close>

record conn =
  tagFormat :: TagFormat
  mu :: bool
  w :: Transport
  closed :: bool
  pendingBytes :: string
  maxSize :: int
  errorHandler :: "handler option"
  handled :: "error list"

text \<open>
  The store: the connection at every address, and the number of addresses that
  \<^verbatim>\<open>newConn\<close> has handed out. Clients that hold the same address share the
  connection there.
\<close>

record world =
  conns :: "addr \<Rightarrow> conn"
  allocated :: nat

definition updConn :: "addr \<Rightarrow> (conn \<Rightarrow> conn) \<Rightarrow> world \<Rightarrow> world" where
  "updConn a f s = s\<lparr>conns := (conns s)(a := f (conns s a))\<rparr>"

text \<open>\<^verbatim>\<open>c.conn.mu.Lock()\<close> and \<^verbatim>\<open>c.conn.mu.Unlock()\<close> in a sequential run.\<close>

definition Lock :: "addr \<Rightarrow> world \<Rightarrow> error + world" where
  "Lock a s = (if mu (conns s a) then Inl Blocked else Inr (updConn a (\<lambda>cn. cn\<lparr>mu := True\<rparr>) s))"

definition Unlock :: "addr \<Rightarrow> world \<Rightarrow> error + world" where
  "Unlock a s =
     (if mu (conns s a) then Inr (updConn a (\<lambda>cn. cn\<lparr>mu := False\<rparr>) s)
      else Inl UnlockOfUnlockedMutex)"

text \<open>
  The argument \<^verbatim>\<open>n interface{}\<close> of the metric calls: the shapes of value the
  Line Encoder of the spec formats.
\<close>

datatype val = VInt int | VFloat float32 | VString string

text \<open>
  The methods of \<^verbatim>\<open>*conn\<close> that statsd.go calls and whose bodies are not among the
  sources, and \<^verbatim>\<open>newConn\<close>. The functions of statsd.go below take them as a
  parameter; the first argument of each method is the receiver's address.
\<close>

record connMethods =
  metric :: "addr \<Rightarrow> string \<Rightarrow> string \<Rightarrow> val \<Rightarrow> string \<Rightarrow> float32 \<Rightarrow> string \<Rightarrow> world \<Rightarrow> error + world"
  gauge :: "addr \<Rightarrow> string \<Rightarrow> string \<Rightarrow> val \<Rightarrow> string \<Rightarrow> world \<Rightarrow> error + world"
  unique :: "addr \<Rightarrow> string \<Rightarrow> string \<Rightarrow> string \<Rightarrow> string \<Rightarrow> world \<Rightarrow> error + world"
  flush :: "addr \<Rightarrow> int \<Rightarrow> world \<Rightarrow> error + world"
  handleError :: "addr \<Rightarrow> error option \<Rightarrow> world \<Rightarrow> error + world"

type_synonym newConnFn = "connConfig \<Rightarrow> bool \<Rightarrow> world \<Rightarrow> (addr option \<times> error option) \<times> world"

subsection \<open>New and Clone\<close>

text \<open>The default configuration of \<^verbatim>\<open>New\<close>; 100 ms are 100000000 ns.\<close>

definition defaultConfig :: config where
  "defaultConfig =
     \<lparr>Conn = \<lparr>Conn_Addr = '':8125'', Conn_ErrorHandler = None, Conn_FlushPeriod = 100000000,
              Conn_MaxPacketSize = 1440, Conn_Network = ''udp'', Conn_TagFormat = 0\<rparr>,
      Client = \<lparr>Client_Muted = False, Client_Rate = Finite 1, Client_Prefix = [],
                Client_Tags = []\<rparr>\<rparr>"

definition New :: "newConnFn \<Rightarrow> Option list \<Rightarrow> world \<Rightarrow> error + ((Client \<times> error option) \<times> world)" where
  "New newConn opts s =
     andThen (applyOpts opts defaultConfig) (\<lambda>conf.
       (let ((cn, err), s') = newConn (Conn conf) (Client_Muted (Client conf)) s;
            c = \<lparr>conn = cn, muted = Client_Muted (Client conf), rate = Finite 0, prefix = [],
                 Client.tagFormat = 0, tags = []\<rparr>
        in case err of
             Some e \<Rightarrow> Inr ((c\<lparr>muted := True\<rparr>, Some e), s')
           | None \<Rightarrow>
               Inr ((c\<lparr>rate := Client_Rate (Client conf),
                       prefix := Client_Prefix (Client conf),
                       tags := Client_Tags (Client conf)\<rparr>, None), s')))"

text \<open>
  \<^verbatim>\<open>Clone\<close> starts from a configuration whose other fields have their zero value,
  and neither reads nor writes the store.
\<close>

definition Clone :: "Client \<Rightarrow> Option list \<Rightarrow> error + Client" where
  "Clone c opts =
     andThen (applyOpts opts
        \<lparr>Conn = \<lparr>Conn_Addr = [], Conn_ErrorHandler = None, Conn_FlushPeriod = 0,
                 Conn_MaxPacketSize = 0, Conn_Network = [], Conn_TagFormat = 0\<rparr>,
         Client = \<lparr>Client_Muted = False, Client_Rate = rate c, Client_Prefix = prefix c,
                   Client_Tags = tags c\<rparr>\<rparr>)
       (\<lambda>conf.
          (let clone = \<lparr>conn = conn c, muted = muted c \<or> Client_Muted (Client conf),
                        rate = Client_Rate (Client conf), prefix = Client_Prefix (Client conf),
                        Client.tagFormat = 0, tags = Client_Tags (Client conf)\<rparr>
           in Inr (clone\<lparr>conn := conn c\<rparr>)))"

subsection \<open>The metric calls\<close>

text \<open>
  \<^verbatim>\<open>skip\<close>; its second argument is the value that \<^verbatim>\<open>randFloat()\<close> returns when
  it is called.
\<close>

definition skip :: "Client \<Rightarrow> float32 \<Rightarrow> bool" where
  "skip c r = (muted c \<or> (f32_ne (rate c) (Finite 1) \<and> f32_gt r (rate c)))"

text \<open>Every use of \<^verbatim>\<open>c.conn\<close> dereferences the pointer.\<close>

definition withConn :: "Client \<Rightarrow> (addr \<Rightarrow> error + 'a) \<Rightarrow> error + 'a" where
  "withConn c f = (case conn c of None \<Rightarrow> Inl NilDereference | Some a \<Rightarrow> f a)"

text \<open>
  \<^verbatim>\<open>tagstr := joinTags(c.conn.tagFormat, mergeTags(c.tags, tags))\<close>, shared by the
  five metric calls.
\<close>

definition tagstr :: "Client \<Rightarrow> addr \<Rightarrow> string list \<Rightarrow> world \<Rightarrow> error + string" where
  "tagstr c a newTags s =
     andThen (mergeTags (tags c) newTags) (joinTags (conn.tagFormat (conns s a)))"

definition Count :: "connMethods \<Rightarrow> Client \<Rightarrow> string \<Rightarrow> val \<Rightarrow> string list \<Rightarrow> float32 \<Rightarrow> world \<Rightarrow> error + world" where
  "Count m c bucket n newTags r s =
     (if skip c r then Inr s
      else withConn c (\<lambda>a. andThen (tagstr c a newTags s)
             (\<lambda>ts. metric m a (prefix c) bucket n ''c'' (rate c) ts s)))"

definition Increment :: "connMethods \<Rightarrow> Client \<Rightarrow> string \<Rightarrow> float32 \<Rightarrow> world \<Rightarrow> error + world" where
  "Increment m c bucket r s = Count m c bucket (VInt 1) [] r s"

definition Gauge :: "connMethods \<Rightarrow> Client \<Rightarrow> string \<Rightarrow> val \<Rightarrow> string list \<Rightarrow> float32 \<Rightarrow> world \<Rightarrow> error + world" where
  "Gauge m c bucket value newTags r s =
     (if skip c r then Inr s
      else withConn c (\<lambda>a. andThen (tagstr c a newTags s)
             (\<lambda>ts. gauge m a (prefix c) bucket value ts s)))"

definition Timing :: "connMethods \<Rightarrow> Client \<Rightarrow> string \<Rightarrow> val \<Rightarrow> string list \<Rightarrow> float32 \<Rightarrow> world \<Rightarrow> error + world" where
  "Timing m c bucket value newTags r s =
     (if skip c r then Inr s
      else withConn c (\<lambda>a. andThen (tagstr c a newTags s)
             (\<lambda>ts. metric m a (prefix c) bucket value ''ms'' (rate c) ts s)))"

definition Histogram :: "connMethods \<Rightarrow> Client \<Rightarrow> string \<Rightarrow> val \<Rightarrow> string list \<Rightarrow> float32 \<Rightarrow> world \<Rightarrow> error + world" where
  "Histogram m c bucket value newTags r s =
     (if skip c r then Inr s
      else withConn c (\<lambda>a. andThen (tagstr c a newTags s)
             (\<lambda>ts. metric m a (prefix c) bucket value ''h'' (rate c) ts s)))"

definition Unique :: "connMethods \<Rightarrow> Client \<Rightarrow> string \<Rightarrow> string \<Rightarrow> string list \<Rightarrow> float32 \<Rightarrow> world \<Rightarrow> error + world" where
  "Unique m c bucket value newTags r s =
     (if skip c r then Inr s
      else withConn c (\<lambda>a. andThen (tagstr c a newTags s)
             (\<lambda>ts. unique m a (prefix c) bucket value ts s)))"

text \<open>
  \<^verbatim>\<open>Timing.Send\<close>: \<^verbatim>\<open>t.c.Timing(bucket, int(t.Duration()/time.Millisecond))\<close>. The
  second argument is the client \<^verbatim>\<open>t.c\<close>, the third what \<^verbatim>\<open>t.Duration()\<close> returns,
  in nanoseconds; Go's integer division truncates towards zero.
\<close>

definition Send :: "connMethods \<Rightarrow> Client \<Rightarrow> int \<Rightarrow> string \<Rightarrow> float32 \<Rightarrow> world \<Rightarrow> error + world" where
  "Send m c duration bucket r s =
     Timing m c bucket
       (VInt (if duration < 0 then - ((- duration) div 1000000) else duration div 1000000))
       [] r s"

subsection \<open>Flush and Close\<close>

definition Flush :: "connMethods \<Rightarrow> Client \<Rightarrow> world \<Rightarrow> error + world" where
  "Flush m c s =
     (if muted c then Inr s
      else withConn c (\<lambda>a.
             andThen (Lock a s) (\<lambda>s1.
             andThen (flush m a 0 s1) (\<lambda>s2.
             Unlock a s2))))"

definition Close :: "connMethods \<Rightarrow> Client \<Rightarrow> world \<Rightarrow> error + world" where
  "Close m c s =
     (if muted c then Inr s
      else withConn c (\<lambda>a.
             andThen (Lock a s) (\<lambda>s1.
             andThen (flush m a 0 s1) (\<lambda>s2.
             (let (t, err) = transportClose (w (conns s2 a)) in
              andThen (handleError m a err (updConn a (\<lambda>cn. cn\<lparr>w := t\<rparr>) s2)) (\<lambda>s3.
              Unlock a (updConn a (\<lambda>cn. cn\<lparr>closed := True\<rparr>) s3)))))))"

section \<open>The core of the spec: Packet Buffer, Line Encoder, Error Sink\<close>

text \<open>
  The file that implements \<^verbatim>\<open>*conn\<close> is not among the sources. This section models
  its operations from sections 3, 4.1, 4.3 and 4.5 of the spec, as functions on the
  connection record. The Flush Scheduler of section 4.4 is a timer and has no
  counterpart here: a tick of it is one more call of \<open>bufFlush\<close>.
\<close>

text \<open>
  Modelled from the spec: the Error Sink, which receives every Transport failure and
  forwards it to the user-supplied callback (default: discard).
\<close>

definition sinkError :: "error option \<Rightarrow> conn \<Rightarrow> conn" where
  "sinkError err cn =
     (case err of
        None \<Rightarrow> cn
      | Some e \<Rightarrow> (case errorHandler cn of
                     None \<Rightarrow> cn
                   | Some h \<Rightarrow> cn\<lparr>handled := handled cn @ [e]\<rparr>))"

text \<open>
  Modelled from the spec: \<^verbatim>\<open>flush(deadline)\<close> of the Packet Buffer. If the buffer is
  empty, a no-op; otherwise it writes the accumulated bytes to the Transport in one
  operation, clears the buffer regardless of the write's outcome, and forwards any
  write error to the Error Sink. After close it is a no-op. The deadline is reserved.
\<close>

definition bufFlush :: "int \<Rightarrow> conn \<Rightarrow> conn" where
  "bufFlush deadline cn =
     (if closed cn then cn
      else if pendingBytes cn = [] then cn
      else (let (t, err) = transportWrite (w cn) (pendingBytes cn)
            in sinkError err (cn\<lparr>w := t, pendingBytes := []\<rparr>)))"

text \<open>
  Modelled from the spec: \<^verbatim>\<open>append(line)\<close> of the Packet Buffer. If
  \<^verbatim>\<open>len(pendingBytes) + len(line) + 1 > maxSize\<close> and \<^verbatim>\<open>pendingBytes\<close> is non-empty,
  flush first, then append; the separator between lines is a single newline. A line
  that alone exceeds \<^verbatim>\<open>maxSize\<close> is appended anyway and goes out as a standalone
  oversized write, which restores the invariant \<^verbatim>\<open>len(pendingBytes) \<le> maxSize\<close> of
  section 3 when the operation ends. After close it is a no-op.
\<close>

definition bufAppend :: "string \<Rightarrow> conn \<Rightarrow> conn" where
  "bufAppend line cn =
     (if closed cn then cn
      else
        (let cn1 = (if int (length (pendingBytes cn)) + int (length line) + 1 > maxSize cn
                       \<and> pendingBytes cn \<noteq> []
                    then bufFlush 0 cn else cn);
             cn2 = cn1\<lparr>pendingBytes :=
                     (if pendingBytes cn1 = [] then line
                      else pendingBytes cn1 @ [CHR 0x0A] @ line)\<rparr>
         in if int (length line) > maxSize cn then bufFlush 0 cn2 else cn2))"

text \<open>
  Modelled from the spec: \<^verbatim>\<open>close()\<close> of the Packet Buffer, which flushes, then closes
  the Transport (a failure goes to the Error Sink), then marks the buffer permanently
  closed. These are the three statements of \<^verbatim>\<open>Client.Close\<close> between \<^verbatim>\<open>Lock\<close> and
  \<^verbatim>\<open>Unlock\<close>.
\<close>

definition bufClose :: "conn \<Rightarrow> conn" where
  "bufClose cn =
     (let cn1 = bufFlush 0 cn;
          (t, err) = transportClose (w cn1)
      in (sinkError err (cn1\<lparr>w := t\<rparr>))\<lparr>closed := True\<rparr>)"

text \<open>
  Modelled from the spec: the Packet Buffer that construction creates (section 3), over
  a Transport that has been opened.
\<close>

definition newBuffer :: "connConfig \<Rightarrow> Transport \<Rightarrow> conn" where
  "newBuffer conf t =
     \<lparr>tagFormat = Conn_TagFormat conf, mu = False, w = t, closed = False, pendingBytes = [],
      maxSize = Conn_MaxPacketSize conf, errorHandler = Conn_ErrorHandler conf, handled = []\<rparr>"

text \<open>
  Modelled from the spec: \<^verbatim>\<open>open(network, address)\<close> of section 4.5, which
  establishes the connection or fails with a ConnectionError carrying the underlying
  cause, and \<^verbatim>\<open>newConn\<close>, which opens the Transport and creates the Packet Buffer
  that owns it. The network is the parameter \<open>dial\<close>.
\<close>

type_synonym dialer = "string \<Rightarrow> string \<Rightarrow> string + Transport"

definition newConnSpec :: "dialer \<Rightarrow> newConnFn" where
  "newConnSpec dial conf isMuted s =
     (case dial (Conn_Network conf) (Conn_Addr conf) of
        Inl cause \<Rightarrow> ((None, Some (ConnectionError cause)), s)
      | Inr t \<Rightarrow>
          ((Some (allocated s), None),
           s\<lparr>conns := (conns s)(allocated s := newBuffer conf t),
             allocated := allocated s + 1\<rparr>))"

text \<open>
  Modelled from the spec: the Line Encoder of section 4.1. Given a bucket name (already
  prefixed), a value, a type marker, a sample rate and a pre-encoded tag suffix it
  produces \<^verbatim>\<open>bucket:value|type\<close>, followed by \<^verbatim>\<open>|@rate\<close> when the rate is not 1,
  followed by the tag suffix. How a value and a rate are written as text is the
  parameter \<open>fmt\<close>.
\<close>

record formatter =
  fmtValue :: "val \<Rightarrow> string"
  fmtRate :: "float32 \<Rightarrow> string"

definition encodeLine :: "formatter \<Rightarrow> string \<Rightarrow> val \<Rightarrow> string \<Rightarrow> float32 \<Rightarrow> string \<Rightarrow> string" where
  "encodeLine fmt bucket value typ sampleRate tagSuffix =
     bucket @ '':'' @ fmtValue fmt value @ ''|'' @ typ
       @ (if f32_ne sampleRate (Finite 1) then ''|@'' @ fmtRate fmt sampleRate else [])
       @ tagSuffix"

text \<open>
  Modelled from the spec: a public operation of the Packet Buffer acquires the buffer's
  exclusive lock for its full duration (section 4.3); here, an append.
\<close>

definition appendLocked :: "addr \<Rightarrow> string \<Rightarrow> world \<Rightarrow> error + world" where
  "appendLocked a line s = andThen (Lock a s) (\<lambda>s1. Unlock a (updConn a (bufAppend line) s1))"

text \<open>
  Modelled from the spec: the methods of \<^verbatim>\<open>*conn\<close> that statsd.go calls. A metric
  method encodes one line and appends it under the lock; a gauge and a set value carry
  no sample rate. \<^verbatim>\<open>flush\<close> and \<^verbatim>\<open>handleError\<close> are called by \<^verbatim>\<open>Client.Flush\<close>
  and \<^verbatim>\<open>Client.Close\<close> with the lock held.
\<close>

definition specConn :: "formatter \<Rightarrow> connMethods" where
  "specConn fmt =
     \<lparr>metric = (\<lambda>a pfx bucket n typ sampleRate suffix.
                  appendLocked a (encodeLine fmt (pfx @ bucket) n typ sampleRate suffix)),
      gauge = (\<lambda>a pfx bucket value suffix.
                  appendLocked a (encodeLine fmt (pfx @ bucket) value ''g'' (Finite 1) suffix)),
      unique = (\<lambda>a pfx bucket value suffix.
                  appendLocked a (encodeLine fmt (pfx @ bucket) (VString value) ''s'' (Finite 1) suffix)),
      flush = (\<lambda>a deadline s. Inr (updConn a (bufFlush deadline) s)),
      handleError = (\<lambda>a err s. Inr (updConn a (sinkError err) s))\<rparr>"

text \<open>A run of Packet Buffer operations, from the first to the last.\<close>

datatype bufOp = Append string | FlushNow | CloseNow

fun bufStep :: "conn \<Rightarrow> bufOp \<Rightarrow> conn" where
  "bufStep cn (Append line) = bufAppend line cn"
| "bufStep cn FlushNow = bufFlush 0 cn"
| "bufStep cn CloseNow = bufClose cn"

definition bufRun :: "bufOp list \<Rightarrow> conn \<Rightarrow> conn" where
  "bufRun ops cn = foldl bufStep cn ops"

section \<open>Notions used in the statements and proofs\<close>

text \<open>The key/value pairs of a flat sequence \<^verbatim>\<open>k1, v1, k2, v2, ...\<close>.\<close>

fun pairs :: "string list \<Rightarrow> (string \<times> string) list" where
  "pairs (k # v # rest) = (k, v) # pairs rest"
| "pairs rest = []"

text \<open>One round of the outer loop of \<^verbatim>\<open>mergeTags\<close>, seen as a function of the pair.\<close>

fun mergeStep :: "tag list \<Rightarrow> string \<times> string \<Rightarrow> tag list" where
  "mergeStep out (k, v) =
     (let out' = map (\<lambda>t. if k = K t then t\<lparr>V := v\<rparr> else t) out
      in if k \<in> K ` set out then out' else out' @ [\<lparr>K = k, V = v\<rparr>])"

text \<open>The elements of a list in the order of their first occurrence.\<close>

definition firstOcc :: "'a list \<Rightarrow> 'a list" where
  "firstOcc xs = rev (remdups (rev xs))"

text \<open>A base tag after the merge, and the tag appended for a new key.\<close>

definition overwritten :: "(string \<times> string) list \<Rightarrow> tag \<Rightarrow> tag" where
  "overwritten ps t = (case map_of (rev ps) (K t) of Some v \<Rightarrow> t\<lparr>V := v\<rparr> | None \<Rightarrow> t)"

definition appended :: "(string \<times> string) list \<Rightarrow> string \<Rightarrow> tag" where
  "appended ps k = \<lparr>K = k, V = the (map_of (rev ps) k)\<rparr>"

text \<open>
  A tag whose key and value hold neither the comma that separates pairs nor the byte
  \<open>sep\<close> that separates a key from its value.
\<close>

definition tagClean :: "char \<Rightarrow> tag \<Rightarrow> bool" where
  "tagClean sep t \<longleftrightarrow>
     CHR '','' \<notin> set (K t) \<and> CHR '','' \<notin> set (V t) \<and> sep \<notin> set (K t) \<and> sep \<notin> set (V t)"

text \<open>
  A client that is ready for a call: muted, or holding a connection whose mutex is free
  and whose tag format is unset, InfluxDB or Datadog.
\<close>

definition ready :: "Client \<Rightarrow> world \<Rightarrow> bool" where
  "ready c s =
     (muted c \<or>
      (case conn c of
         None \<Rightarrow> False
       | Some a \<Rightarrow> \<not> mu (conns s a) \<and> conn.tagFormat (conns s a) \<in> {0, InfluxDB, Datadog}))"

text \<open>The buffer's lifecycle invariant: once closed, nothing is pending.\<close>

definition bufInv :: "conn \<Rightarrow> bool" where
  "bufInv cn \<longleftrightarrow> (closed cn \<longrightarrow> pendingBytes cn = [])"

text \<open>The panic of \<^verbatim>\<open>mergeTags\<close> and \<^verbatim>\<open>Tags\<close>, and a call that returns or raises it.\<close>

definition oddTagsPanic :: error where
  "oddTagsPanic = InvalidArgument ''statsd: Tags only accepts an even number of arguments''"

definition onlyInvalidArgument :: "error + 'a \<Rightarrow> bool" where
  "onlyInvalidArgument x = (case x of Inr y \<Rightarrow> True | Inl e \<Rightarrow> e = oddTagsPanic)"

text \<open>
  Concrete inputs for the examples: a Transport on which nothing has been written and
  that never fails, a store with no connection handed out, a network that refuses and
  one that accepts every connection, a formatter, and the client and the store that
  \<^verbatim>\<open>New\<close> returns on the accepting network with the tag format \<open>tf\<close>.
\<close>

definition idleTransport :: Transport where
  "idleTransport = \<lparr>written = [], writeFault = (\<lambda>k. None), closeCalls = 0, closeFault = None\<rparr>"

definition emptyWorld :: world where
  "emptyWorld = \<lparr>conns = (\<lambda>a. newBuffer (Conn defaultConfig) idleTransport), allocated = 0\<rparr>"

definition refusingDialer :: dialer where
  "refusingDialer network address = Inl ''connection refused''"

definition acceptingDialer :: dialer where
  "acceptingDialer network address = Inr idleTransport"

definition plainFormatter :: formatter where
  "plainFormatter =
     \<lparr>fmtValue = (\<lambda>v. case v of
                          VInt i \<Rightarrow> (if i = 1 then ''1'' else ''?'')
                        | VFloat x \<Rightarrow> ''?''
                        | VString str \<Rightarrow> str),
      fmtRate = (\<lambda>x. ''?'')\<rparr>"

definition firstClient :: Client where
  "firstClient = \<lparr>conn = Some 0, muted = False, rate = Finite 1, prefix = [],
                   Client.tagFormat = 0, tags = []\<rparr>"

definition firstWorld :: "TagFormat \<Rightarrow> world" where
  "firstWorld tf =
     emptyWorld\<lparr>conns := (conns emptyWorld)
                   (0 := newBuffer ((Conn defaultConfig)\<lparr>Conn_TagFormat := tf\<rparr>) idleTransport),
                allocated := 1\<rparr>"

section \<open>Tags: what the code computes\<close>

subsection \<open>Auxiliary facts\<close>

lemma setVal_eq:
  "setVal key val ts = (key \<in> K ` set ts, map (\<lambda>t. if key = K t then t\<lparr>V := val\<rparr> else t) ts)"
  by (induction ts) auto

lemma pairs_short: "length xs < 2 \<Longrightarrow> pairs xs = []"
  by (cases xs rule: pairs.cases) auto

lemma drop_two:
  assumes "2 * i + 1 < length xs"
  shows "drop (2 * i) xs = xs ! (2 * i) # xs ! (2 * i + 1) # drop (2 * (i + 1)) xs"
proof -
  have "drop (2 * i) xs = xs ! (2 * i) # drop (Suc (2 * i)) xs"
    using assms by (simp add: Cons_nth_drop_Suc)
  moreover have "drop (Suc (2 * i)) xs = xs ! (2 * i + 1) # drop (Suc (Suc (2 * i))) xs"
    using assms by (simp add: Cons_nth_drop_Suc)
  ultimately show ?thesis by simp
qed

lemma mergeLoop_unfold:
  "i < length newTags div 2 \<Longrightarrow>
     mergeLoop newTags i out =
       mergeLoop newTags (i + 1) (mergeStep out (newTags ! (2 * i), newTags ! (2 * i + 1)))"
  apply (subst mergeLoop.simps)
  apply (simp add: setVal_eq Let_def)
  done

lemma mergeLoop_foldl:
  "mergeLoop newTags i out = foldl mergeStep out (pairs (drop (2 * i) newTags))"
proof (induction "length newTags div 2 - i" arbitrary: i out)
  case 0
  then have "length (drop (2 * i) newTags) < 2" by simp
  then have "pairs (drop (2 * i) newTags) = []" by (rule pairs_short)
  moreover from 0 have "\<not> i < length newTags div 2" by simp
  then have "mergeLoop newTags i out = out" by (subst mergeLoop.simps) simp
  ultimately show ?case by simp
next
  case (Suc n)
  then have lt: "i < length newTags div 2" and n: "n = length newTags div 2 - (i + 1)"
    by arith+
  from lt have r: "2 * i + 1 < length newTags" by arith
  have "mergeLoop newTags i out =
          mergeLoop newTags (i + 1) (mergeStep out (newTags ! (2 * i), newTags ! (2 * i + 1)))"
    by (rule mergeLoop_unfold [OF lt])
  also have "\<dots> = foldl mergeStep (mergeStep out (newTags ! (2 * i), newTags ! (2 * i + 1)))
                      (pairs (drop (2 * (i + 1)) newTags))"
    by (rule Suc.hyps(1) [OF n])
  also have "\<dots> = foldl mergeStep out (pairs (drop (2 * i) newTags))"
    by (simp add: drop_two [OF r] del: mergeStep.simps)
  finally show ?case .
qed

lemma remdups_snoc: "remdups (ys @ [x]) = remdups (filter (\<lambda>y. y \<noteq> x) ys) @ [x]"
  by (induction ys) auto

lemma firstOcc_Cons: "firstOcc (x # xs) = x # firstOcc (filter (\<lambda>y. y \<noteq> x) xs)"
  by (simp add: firstOcc_def remdups_snoc rev_filter)

lemma firstOcc_Nil: "firstOcc [] = []"
  by (simp add: firstOcc_def)

lemma set_firstOcc: "set (firstOcc xs) = set xs"
  by (simp add: firstOcc_def)

lemma distinct_firstOcc: "distinct (firstOcc xs)"
  by (simp add: firstOcc_def)

lemma map_of_rev_Cons:
  "map_of (rev ((k, v) # ps)) x =
     (case map_of (rev ps) x of Some y \<Rightarrow> Some y | None \<Rightarrow> if x = k then Some v else None)"
  by (simp add: map_add_def split: option.splits)

lemma foldl_mergeStep:
  "foldl mergeStep base ps =
     map (overwritten ps) base @ map (appended ps) (firstOcc (filter (\<lambda>k. k \<notin> K ` set base) (map fst ps)))"
proof (induction ps arbitrary: base)
  case Nil
  show ?case by (simp add: overwritten_def firstOcc_Nil)
next
  case (Cons p ps)
  obtain k v where p: "p = (k, v)" by (cases p)
  have appended_eq: "appended ((k, v) # ps) x = appended ps x" if "x \<in> fst ` set ps" for x
  proof -
    from that have "map_of (rev ps) x \<noteq> None" by (simp add: map_of_eq_None_iff)
    then show ?thesis by (auto simp: appended_def map_of_rev_Cons simp del: rev.simps)
  qed
  show ?case
  proof (cases "k \<in> K ` set base")
    case True
    have s: "mergeStep base (k, v) = map (\<lambda>t. if k = K t then t\<lparr>V := v\<rparr> else t) base"
      using True by (simp add: Let_def)
    have "map K (mergeStep base (k, v)) = map K base"
      unfolding s by (induction base) auto
    then have keys: "K ` set (mergeStep base (k, v)) = K ` set base"
      by (metis set_map)
    have a: "map (overwritten ps) (mergeStep base (k, v)) = map (overwritten ((k, v) # ps)) base"
      unfolding s by (auto simp: overwritten_def map_of_rev_Cons simp del: rev.simps split: option.splits)
    have b: "map (appended ps) (firstOcc (filter (\<lambda>x. x \<notin> K ` set base) (map fst ps)))
           = map (appended ((k, v) # ps)) (firstOcc (filter (\<lambda>x. x \<notin> K ` set base) (map fst ps)))"
      by (rule map_cong [OF refl]) (auto simp: set_firstOcc appended_eq)
    show ?thesis
      using True by (simp add: p Cons.IH keys a b del: rev.simps mergeStep.simps)
  next
    case False
    have s: "mergeStep base (k, v) = base @ [\<lparr>K = k, V = v\<rparr>]"
    proof -
      have "map (\<lambda>t. if k = K t then t\<lparr>V := v\<rparr> else t) base = base"
        using False by (intro map_idI) auto
      then show ?thesis using False by simp
    qed
    have a: "map (overwritten ps) base = map (overwritten ((k, v) # ps)) base"
      using False by (intro map_cong [OF refl]) (auto simp: overwritten_def map_of_rev_Cons simp del: rev.simps split: option.splits)
    have c: "overwritten ps \<lparr>K = k, V = v\<rparr> = appended ((k, v) # ps) k"
      by (auto simp: overwritten_def appended_def map_of_rev_Cons simp del: rev.simps split: option.splits)
    define ks' where "ks' = filter (\<lambda>y. y \<noteq> k) (filter (\<lambda>x. x \<notin> K ` set base) (map fst ps))"
    have f: "filter (\<lambda>x. x \<notin> K ` set (mergeStep base (k, v))) (map fst ps) = ks'"
      unfolding s ks'_def by (auto intro: filter_cong)
    have g: "firstOcc (filter (\<lambda>x. x \<notin> K ` set base) (map fst (p # ps))) = k # firstOcc ks'"
      using False unfolding ks'_def by (simp add: p firstOcc_Cons del: filter_filter)
    have b: "map (appended ps) (firstOcc ks') = map (appended ((k, v) # ps)) (firstOcc ks')"
      by (rule map_cong [OF refl]) (auto simp: set_firstOcc appended_eq ks'_def)
    have "foldl mergeStep base (p # ps) = foldl mergeStep (mergeStep base (k, v)) ps"
      by (simp add: p del: mergeStep.simps)
    also have "\<dots> = map (overwritten ps) (mergeStep base (k, v)) @ map (appended ps) (firstOcc ks')"
      unfolding Cons.IH f ..
    also have "\<dots> = map (overwritten (p # ps)) base @ map (appended (p # ps)) (k # firstOcc ks')"
      unfolding s by (simp add: a b c p)
    finally show ?thesis unfolding g .
  qed
qed



lemma mergeTags_foldl:
  assumes "even (length flat)"
  shows "mergeTags base flat = Inr (foldl mergeStep base (pairs flat))"
proof (cases "flat = []")
  case True
  then show ?thesis by (simp add: mergeTags_def)
next
  case False
  have "map (\<lambda>t. \<lparr>K = K t, V = V t\<rparr>) base = base" by (intro map_idI) simp
  with assms False show ?thesis
    by (simp add: mergeTags_def mergeLoop_foldl even_iff_mod_2_eq_zero)
qed

lemma mergeTags_characterised:
  assumes "even (length flat)"
  shows "\<exists>r. mergeTags base flat = Inr r
     \<and> map K r = map K base @
         rev (remdups (rev (filter (\<lambda>k. k \<notin> set (map K base)) (map fst (pairs flat)))))
     \<and> (\<forall>i < length r. V (r ! i) =
           (case map_of (rev (pairs flat)) (K (r ! i)) of Some v \<Rightarrow> v | None \<Rightarrow> V (base ! i)))
     \<and> (distinct (map K base) \<longrightarrow> distinct (map K r))"
proof -
  let ?ps = "pairs flat"
  let ?new = "firstOcc (filter (\<lambda>k. k \<notin> K ` set base) (map fst ?ps))"
  let ?r = "map (overwritten ?ps) base @ map (appended ?ps) ?new"
  have r: "mergeTags base flat = Inr ?r"
    by (simp add: mergeTags_foldl [OF assms] foldl_mergeStep)
  have K_overwritten: "K (overwritten ?ps t) = K t" for t
    by (simp add: overwritten_def split: option.splits)
  have keys: "map K ?r = map K base @ ?new"
    by (simp add: K_overwritten appended_def comp_def)
  have new_in: "k \<in> fst ` set ?ps \<and> k \<notin> K ` set base" if "k \<in> set ?new" for k
    using that by (auto simp: set_firstOcc)
  have vals: "V (?r ! i) = (case map_of (rev ?ps) (K (?r ! i)) of Some v \<Rightarrow> v | None \<Rightarrow> V (base ! i))"
    if "i < length ?r" for i
  proof (cases "i < length base")
    case True
    then show ?thesis by (simp add: nth_append overwritten_def split: option.splits)
  next
    case False
    with that have j: "i - length base < length ?new" by simp
    then have "?new ! (i - length base) \<in> set ?new" by (rule nth_mem)
    then have "?new ! (i - length base) \<in> fst ` set ?ps" using new_in by blast
    then have "map_of (rev ?ps) (?new ! (i - length base)) \<noteq> None"
      by (simp add: map_of_eq_None_iff)
    with False j show ?thesis by (auto simp: nth_append appended_def)
  qed
  have "set (map K base) \<inter> set ?new = {}"
    unfolding set_firstOcc by auto
  then have dist: "distinct (map K ?r)" if "distinct (map K base)"
    unfolding keys using that by (simp only: distinct_append distinct_firstOcc simp_thms)
  have keys': "map K ?r = map K base @
         rev (remdups (rev (filter (\<lambda>k. k \<notin> set (map K base)) (map fst ?ps))))"
    unfolding keys by (simp only: firstOcc_def set_map)
  show ?thesis
  proof (intro exI [of _ ?r] conjI allI impI)
    show "mergeTags base flat = Inr ?r" by (rule r)
    show "map K ?r = map K base @
         rev (remdups (rev (filter (\<lambda>k. k \<notin> set (map K base)) (map fst ?ps))))"
      by (rule keys')
    show "V (?r ! i) = (case map_of (rev ?ps) (K (?r ! i)) of Some v \<Rightarrow> v | None \<Rightarrow> V (base ! i))"
      if "i < length ?r" for i using that by (rule vals)
    show "distinct (map K ?r)" if "distinct (map K base)" using that by (rule dist)
  qed
qed



lemma joinInfluxDB_eq:
  "joinInfluxDB buf ts = buf @ concat (map (\<lambda>t. CHR '','' # K t @ CHR ''='' # V t) ts)"
  by (induction ts arbitrary: buf) auto

lemma joinDatadog_False:
  "joinDatadog buf False ts = buf @ concat (map (\<lambda>t. CHR '','' # K t @ CHR '':'' # V t) ts)"
  by (induction ts arbitrary: buf) auto

lemma Split_nosep: "sep \<notin> set a \<Longrightarrow> Split a sep = [a]"
  by (induction a) auto

lemma Split_app: "sep \<notin> set a \<Longrightarrow> Split (a @ sep # b) sep = a # Split b sep"
  by (induction a) (auto simp: Let_def)

lemma Split_joined:
  assumes "\<forall>t\<in>set (t # ts). tagClean sep t" and "sep \<noteq> CHR '',''"
  shows "Split (K t @ sep # V t @ concat (map (\<lambda>t. CHR '','' # K t @ sep # V t) ts)) CHR '',''
           = map (\<lambda>t. K t @ sep # V t) (t # ts)"
  using assms
proof (induction ts arbitrary: t)
  case Nil
  then show ?case by (simp add: Split_nosep tagClean_def)
next
  case (Cons u us)
  have "CHR '','' \<notin> set (K t @ sep # V t)"
    using Cons.prems by (simp add: tagClean_def)
  then have "Split ((K t @ sep # V t) @ CHR '','' # (K u @ sep # V u @ concat (map (\<lambda>t. CHR '','' # K t @ sep # V t) us))) CHR '',''
      = (K t @ sep # V t) # Split (K u @ sep # V u @ concat (map (\<lambda>t. CHR '','' # K t @ sep # V t) us)) CHR '',''"
    by (rule Split_app)
  moreover have "Split (K u @ sep # V u @ concat (map (\<lambda>t. CHR '','' # K t @ sep # V t) us)) CHR '',''
      = map (\<lambda>t. K t @ sep # V t) (u # us)"
    using Cons.prems by (intro Cons.IH) auto
  ultimately show ?case by simp
qed

lemma splitPairs_joined:
  assumes "\<forall>t\<in>set ts. tagClean sep t"
  shows "splitPairs sep (map (\<lambda>t. K t @ sep # V t) ts) = Inr ts"
  using assms
proof (induction ts)
  case Nil
  then show ?case by simp
next
  case (Cons t ts)
  then have "Split (K t @ sep # V t) sep = [K t, V t]"
    by (simp add: Split_app Split_nosep tagClean_def)
  with Cons show ?case by (simp add: andThen_def)
qed

lemma roundtrip_InfluxDB:
  assumes "tgs \<noteq> []" and "\<forall>t\<in>set tgs. tagClean CHR ''='' t"
  shows "andThen (joinTags InfluxDB tgs) (splitTags InfluxDB) = Inr tgs"
proof -
  from assms(1) obtain t ts where tgs: "tgs = t # ts" by (cases tgs) auto
  let ?rest = "concat (map (\<lambda>t. CHR '','' # K t @ CHR ''='' # V t) ts)"
  have j: "joinTags InfluxDB tgs = Inr (CHR '','' # K t @ CHR ''='' # V t @ ?rest)"
    by (simp add: joinTags_def joinFuncs_def InfluxDB_def tgs joinInfluxDB_eq)
  have "splitTags InfluxDB (CHR '','' # K t @ CHR ''='' # V t @ ?rest)
      = splitPairs CHR ''='' (Split (K t @ CHR ''='' # V t @ ?rest) CHR '','')"
    by (simp add: splitTags_def splitFuncs_def InfluxDB_def splitInfluxDB_def)
  also have "\<dots> = splitPairs CHR ''='' (map (\<lambda>t. K t @ CHR ''='' # V t) (t # ts))"
    using assms(2) unfolding tgs by (subst Split_joined) simp_all
  also have "\<dots> = Inr tgs"
    using assms(2) unfolding tgs by (rule splitPairs_joined)
  finally show ?thesis by (simp add: j andThen_def)
qed

lemma roundtrip_Datadog:
  assumes "tgs \<noteq> []" and "\<forall>t\<in>set tgs. tagClean CHR '':'' t"
  shows "andThen (joinTags Datadog tgs) (splitTags Datadog) = Inr tgs"
proof -
  from assms(1) obtain t ts where tgs: "tgs = t # ts" by (cases tgs) auto
  let ?rest = "concat (map (\<lambda>t. CHR '','' # K t @ CHR '':'' # V t) ts)"
  have j: "joinTags Datadog tgs = Inr (''|#'' @ K t @ CHR '':'' # V t @ ?rest)"
    by (simp add: joinTags_def joinFuncs_def InfluxDB_def Datadog_def tgs joinDatadog_False)
  have "splitTags Datadog (''|#'' @ K t @ CHR '':'' # V t @ ?rest)
      = splitPairs CHR '':'' (Split (K t @ CHR '':'' # V t @ ?rest) CHR '','')"
    by (simp add: splitTags_def splitFuncs_def InfluxDB_def Datadog_def splitDatadog_def)
  also have "\<dots> = splitPairs CHR '':'' (map (\<lambda>t. K t @ CHR '':'' # V t) (t # ts))"
    using assms(2) unfolding tgs by (subst Split_joined) simp_all
  also have "\<dots> = Inr tgs"
    using assms(2) unfolding tgs by (rule splitPairs_joined)
  finally show ?thesis by (simp add: j andThen_def)
qed

subsection \<open>Claims about tags\<close>

text \<open>
  C5. For every base tag list and every flat sequence of even length, \<^verbatim>\<open>mergeTags\<close>
  returns a tag list whose keys are the keys of the base, each at its original
  position, followed by the keys of the flat sequence that the base does not have, in the
  order of their first occurrence; the value of every key that the flat sequence
  mentions is the one of its last occurrence there, the value of every other key is
  the one of the base; and unique keys stay unique. In particular merging
  \<^verbatim>\<open>{a:1}\<close> with \<^verbatim>\<open>[a,2,b,3]\<close> yields \<^verbatim>\<open>{a:2,b:3}\<close>, with \<^verbatim>\<open>a\<close> first.
\<close>

theorem mergeTags_overwrites_in_place_and_appends:
  "(even (length flat) \<longrightarrow>
      (\<exists>r. mergeTags base flat = Inr r
         \<and> map K r = map K base @
               rev (remdups (rev (filter (\<lambda>k. k \<notin> set (map K base)) (map fst (pairs flat)))))
         \<and> (\<forall>i < length r. V (r ! i) =
               (case map_of (rev (pairs flat)) (K (r ! i)) of
                  Some v \<Rightarrow> v
                | None \<Rightarrow> V (base ! i)))
         \<and> (distinct (map K base) \<longrightarrow> distinct (map K r))))
   \<and> mergeTags [\<lparr>K = ''a'', V = ''1''\<rparr>] [''a'', ''2'', ''b'', ''3'']
         = Inr [\<lparr>K = ''a'', V = ''2''\<rparr>, \<lparr>K = ''b'', V = ''3''\<rparr>]"
proof (intro conjI impI)
  assume "even (length flat)"
  then show "\<exists>r. mergeTags base flat = Inr r
         \<and> map K r = map K base @
               rev (remdups (rev (filter (\<lambda>k. k \<notin> set (map K base)) (map fst (pairs flat)))))
         \<and> (\<forall>i < length r. V (r ! i) =
               (case map_of (rev (pairs flat)) (K (r ! i)) of
                  Some v \<Rightarrow> v
                | None \<Rightarrow> V (base ! i)))
         \<and> (distinct (map K base) \<longrightarrow> distinct (map K r))"
    by (rule mergeTags_characterised)
next
  show "mergeTags [\<lparr>K = ''a'', V = ''1''\<rparr>] [''a'', ''2'', ''b'', ''3'']
         = Inr [\<lparr>K = ''a'', V = ''2''\<rparr>, \<lparr>K = ''b'', V = ''3''\<rparr>]"
    by (simp add: mergeTags_def mergeLoop.simps)
qed

theorem mergeTags_overwrites_in_place_and_appends_witness:
  "even (length [''a'', ''2'', ''b'', ''3'', ''a'', ''4''])
   \<and> (\<exists>r. mergeTags [\<lparr>K = ''x'', V = ''0''\<rparr>, \<lparr>K = ''a'', V = ''1''\<rparr>]
              [''a'', ''2'', ''b'', ''3'', ''a'', ''4''] = Inr r
          \<and> map K r = [''x'', ''a'', ''b'']
          \<and> map V r = [''0'', ''4'', ''3''])"
proof -
  have e: "even (length [''a'', ''2'', ''b'', ''3'', ''a'', ''4''])" by simp
  have v: "mergeTags [\<lparr>K = ''x'', V = ''0''\<rparr>, \<lparr>K = ''a'', V = ''1''\<rparr>]
             [''a'', ''2'', ''b'', ''3'', ''a'', ''4'']
           = Inr [\<lparr>K = ''x'', V = ''0''\<rparr>, \<lparr>K = ''a'', V = ''4''\<rparr>, \<lparr>K = ''b'', V = ''3''\<rparr>]"
    by (simp add: mergeTags_def mergeLoop.simps)
  from mergeTags_overwrites_in_place_and_appends
         [of "[''a'', ''2'', ''b'', ''3'', ''a'', ''4'']"
             "[\<lparr>K = ''x'', V = ''0''\<rparr>, \<lparr>K = ''a'', V = ''1''\<rparr>]"] e
  obtain r where "mergeTags [\<lparr>K = ''x'', V = ''0''\<rparr>, \<lparr>K = ''a'', V = ''1''\<rparr>]
             [''a'', ''2'', ''b'', ''3'', ''a'', ''4''] = Inr r"
    by blast
  with v have "r = [\<lparr>K = ''x'', V = ''0''\<rparr>, \<lparr>K = ''a'', V = ''4''\<rparr>, \<lparr>K = ''b'', V = ''3''\<rparr>]"
    by simp
  with v e show ?thesis by simp
qed

text \<open>
  C7, as the code has it. For each of the two dialects and every non-empty tag list
  whose keys and values hold neither a comma nor the dialect's key/value separator
  (\<^verbatim>\<open>=\<close> for InfluxDB, \<^verbatim>\<open>:\<close> for Datadog), decoding the encoding of the list yields
  the list. Unique keys are not needed.
\<close>

theorem tags_roundtrip_without_separators:
  "tgs \<noteq> [] \<longrightarrow>
     ((\<forall>t\<in>set tgs. tagClean CHR ''='' t) \<longrightarrow>
        andThen (joinTags InfluxDB tgs) (splitTags InfluxDB) = Inr tgs)
   \<and> ((\<forall>t\<in>set tgs. tagClean CHR '':'' t) \<longrightarrow>
        andThen (joinTags Datadog tgs) (splitTags Datadog) = Inr tgs)"
  using roundtrip_InfluxDB roundtrip_Datadog by blast

theorem tags_roundtrip_without_separators_witness:
  "[\<lparr>K = ''env'', V = ''prod''\<rparr>, \<lparr>K = ''region'', V = ''us-west''\<rparr>] \<noteq> []
   \<and> tagClean CHR ''='' \<lparr>K = ''env'', V = ''prod''\<rparr>
   \<and> tagClean CHR ''='' \<lparr>K = ''region'', V = ''us-west''\<rparr>
   \<and> tagClean CHR '':'' \<lparr>K = ''env'', V = ''prod''\<rparr>
   \<and> tagClean CHR '':'' \<lparr>K = ''region'', V = ''us-west''\<rparr>
   \<and> joinTags InfluxDB [\<lparr>K = ''env'', V = ''prod''\<rparr>, \<lparr>K = ''region'', V = ''us-west''\<rparr>]
        = Inr '',env=prod,region=us-west''
   \<and> joinTags Datadog [\<lparr>K = ''env'', V = ''prod''\<rparr>, \<lparr>K = ''region'', V = ''us-west''\<rparr>]
        = Inr ''|#env:prod,region:us-west''
   \<and> andThen (joinTags InfluxDB [\<lparr>K = ''env'', V = ''prod''\<rparr>, \<lparr>K = ''region'', V = ''us-west''\<rparr>])
        (splitTags InfluxDB)
        = Inr [\<lparr>K = ''env'', V = ''prod''\<rparr>, \<lparr>K = ''region'', V = ''us-west''\<rparr>]
   \<and> andThen (joinTags Datadog [\<lparr>K = ''env'', V = ''prod''\<rparr>, \<lparr>K = ''region'', V = ''us-west''\<rparr>])
        (splitTags Datadog)
        = Inr [\<lparr>K = ''env'', V = ''prod''\<rparr>, \<lparr>K = ''region'', V = ''us-west''\<rparr>]"
proof -
  let ?ts = "[\<lparr>K = ''env'', V = ''prod''\<rparr>, \<lparr>K = ''region'', V = ''us-west''\<rparr>]"
  have c1: "\<forall>t\<in>set ?ts. tagClean CHR ''='' t" by (simp add: tagClean_def)
  have c2: "\<forall>t\<in>set ?ts. tagClean CHR '':'' t" by (simp add: tagClean_def)
  have j1: "joinTags InfluxDB ?ts = Inr '',env=prod,region=us-west''"
    by (simp add: joinTags_def joinFuncs_def InfluxDB_def)
  have j2: "joinTags Datadog ?ts = Inr ''|#env:prod,region:us-west''"
    by (simp add: joinTags_def joinFuncs_def InfluxDB_def Datadog_def)
  have ne: "?ts \<noteq> []" by simp
  from tags_roundtrip_without_separators [of ?ts] ne c1 c2
  have "andThen (joinTags InfluxDB ?ts) (splitTags InfluxDB) = Inr ?ts"
    and "andThen (joinTags Datadog ?ts) (splitTags Datadog) = Inr ?ts"
    by blast+
  with c1 c2 j1 j2 show ?thesis by simp
qed

text \<open>
  The claim C7 as the spec states it fails: the tag \<^verbatim>\<open>a\<close> with the value \<^verbatim>\<open>b=c\<close> is a
  non-empty tag set with unique keys; its InfluxDB encoding \<^verbatim>\<open>,a=b=c\<close> decodes to the
  value \<^verbatim>\<open>b\<close>, and the Datadog encoding of the value \<^verbatim>\<open>x,y\<close> makes the decoder panic.
\<close>

theorem tags_roundtrip_counterexample:
  "[\<lparr>K = ''a'', V = ''b=c''\<rparr>] \<noteq> []
   \<and> distinct (map K [\<lparr>K = ''a'', V = ''b=c''\<rparr>])
   \<and> joinTags InfluxDB [\<lparr>K = ''a'', V = ''b=c''\<rparr>] = Inr '',a=b=c''
   \<and> splitTags InfluxDB '',a=b=c'' = Inr [\<lparr>K = ''a'', V = ''b''\<rparr>]
   \<and> andThen (joinTags InfluxDB [\<lparr>K = ''a'', V = ''b=c''\<rparr>]) (splitTags InfluxDB)
        \<noteq> Inr [\<lparr>K = ''a'', V = ''b=c''\<rparr>]
   \<and> andThen (joinTags Datadog [\<lparr>K = ''a'', V = ''x,y''\<rparr>]) (splitTags Datadog)
        = Inl IndexOutOfRange"
  by (simp add: joinTags_def joinFuncs_def InfluxDB_def Datadog_def splitTags_def
      splitFuncs_def splitInfluxDB_def splitDatadog_def andThen_def Let_def)

text \<open>
  C8. \<^verbatim>\<open>joinTags\<close> returns the empty string whenever the tag list is empty or the
  format is unset, whatever the other argument is, and \<^verbatim>\<open>splitTags\<close> returns the
  empty list, and no panic, whenever its input is empty or the format is unset.
\<close>

theorem unset_format_or_empty_input_gives_empty:
  "joinTags tf [] = Inr []
   \<and> joinTags 0 tgs = Inr []
   \<and> splitTags tf [] = Inr []
   \<and> splitTags 0 str = Inr []"
  by (simp add: joinTags_def splitTags_def)

section \<open>The Packet Buffer\<close>

subsection \<open>Auxiliary facts\<close>

lemma closed_sinkError [simp]: "closed (sinkError err cn) = closed cn"
  by (simp add: sinkError_def split: option.splits)

lemma pendingBytes_sinkError [simp]: "pendingBytes (sinkError err cn) = pendingBytes cn"
  by (simp add: sinkError_def split: option.splits)

lemma w_sinkError [simp]: "w (sinkError err cn) = w cn"
  by (simp add: sinkError_def split: option.splits)

lemma maxSize_sinkError [simp]: "maxSize (sinkError err cn) = maxSize cn"
  by (simp add: sinkError_def split: option.splits)

lemma mu_sinkError [simp]: "mu (sinkError err cn) = mu cn"
  by (simp add: sinkError_def split: option.splits)

lemma tagFormat_sinkError [simp]: "conn.tagFormat (sinkError err cn) = conn.tagFormat cn"
  by (simp add: sinkError_def split: option.splits)

lemma bufFlush_closed: "closed cn \<Longrightarrow> bufFlush d cn = cn"
  by (simp add: bufFlush_def)

lemma bufAppend_closed: "closed cn \<Longrightarrow> bufAppend line cn = cn"
  by (simp add: bufAppend_def)

lemma bufFlush_empty: "pendingBytes cn = [] \<Longrightarrow> bufFlush d cn = cn"
  by (simp add: bufFlush_def)

lemma bufFlush_open:
  assumes "\<not> closed cn" and "pendingBytes cn \<noteq> []"
  shows "written (w (bufFlush d cn)) = written (w cn) @ [pendingBytes cn]"
    and "pendingBytes (bufFlush d cn) = []"
    and "closed (bufFlush d cn) = closed cn"
    and "maxSize (bufFlush d cn) = maxSize cn"
  using assms by (simp_all add: bufFlush_def transportWrite_def)

lemma closed_bufFlush [simp]: "closed (bufFlush d cn) = closed cn"
  by (simp add: bufFlush_def transportWrite_def)

lemma mu_bufFlush [simp]: "mu (bufFlush d cn) = mu cn"
  by (simp add: bufFlush_def transportWrite_def)

lemma tagFormat_bufFlush [simp]: "conn.tagFormat (bufFlush d cn) = conn.tagFormat cn"
  by (simp add: bufFlush_def transportWrite_def)

lemma closed_bufAppend [simp]: "closed (bufAppend line cn) = closed cn"
  by (simp add: bufAppend_def Let_def)

lemma mu_bufAppend [simp]: "mu (bufAppend line cn) = mu cn"
  by (simp add: bufAppend_def Let_def)

lemma closed_bufClose [simp]: "closed (bufClose cn)"
  by (simp add: bufClose_def Let_def split: prod.splits)

lemma mu_bufClose [simp]: "mu (bufClose cn) = mu cn"
  by (simp add: bufClose_def Let_def split: prod.splits)

lemma pendingBytes_bufClose:
  "pendingBytes (bufClose cn) = (if closed cn then pendingBytes cn else [])"
  by (simp add: bufClose_def bufFlush_def transportWrite_def Let_def split: prod.splits)

lemma bufInv_step: "bufInv cn \<Longrightarrow> bufInv (bufStep cn op)"
proof (cases op)
  case (Append line)
  assume "bufInv cn"
  then show ?thesis
    unfolding Append by (cases "closed cn") (simp_all add: bufInv_def bufAppend_closed)
next
  case FlushNow
  assume "bufInv cn"
  then show ?thesis
    unfolding FlushNow by (cases "closed cn") (simp_all add: bufInv_def bufFlush_closed)
next
  case CloseNow
  assume "bufInv cn"
  then show ?thesis
    unfolding CloseNow by (simp add: bufInv_def pendingBytes_bufClose)
qed

lemma bufInv_foldl: "bufInv cn \<Longrightarrow> bufInv (foldl bufStep cn ops)"
  by (induction ops arbitrary: cn) (simp_all add: bufInv_step)

lemma bufInv_run: "bufInv (bufRun ops (newBuffer conf t))"
  unfolding bufRun_def by (rule bufInv_foldl) (simp add: bufInv_def newBuffer_def)

lemma bufAppend_overflow:
  assumes "\<not> closed cn" and "pendingBytes cn \<noteq> []"
    and "int (length (pendingBytes cn)) + int (length line) + 1 > maxSize cn"
  shows "written (w (bufAppend line cn)) =
           written (w cn) @ [pendingBytes cn]
             @ (if int (length line) > maxSize cn \<and> line \<noteq> [] then [line] else [])"
    and "pendingBytes (bufAppend line cn) = (if int (length line) > maxSize cn then [] else line)"
proof -
  let ?cn1 = "bufFlush 0 cn"
  let ?cn2 = "?cn1\<lparr>pendingBytes := line\<rparr>"
  have f: "written (w ?cn1) = written (w cn) @ [pendingBytes cn]" "pendingBytes ?cn1 = []"
    "\<not> closed ?cn1"
    using assms(1,2) by (simp_all add: bufFlush_open)
  have a: "bufAppend line cn = (if int (length line) > maxSize cn then bufFlush 0 ?cn2 else ?cn2)"
    using assms f(2) by (simp add: bufAppend_def Let_def)
  have c2: "\<not> closed ?cn2" "pendingBytes ?cn2 = line" "written (w ?cn2) = written (w cn) @ [pendingBytes cn]"
    using f by simp_all
  show "written (w (bufAppend line cn)) =
           written (w cn) @ [pendingBytes cn]
             @ (if int (length line) > maxSize cn \<and> line \<noteq> [] then [line] else [])"
  proof (cases "int (length line) > maxSize cn \<and> line \<noteq> []")
    case True
    then have "written (w (bufFlush 0 ?cn2)) = written (w ?cn2) @ [pendingBytes ?cn2]"
      using c2(1,2) by (intro bufFlush_open(1)) simp_all
    with True c2 show ?thesis by (simp add: a)
  next
    case False
    then show ?thesis
      using c2 by (auto simp: a bufFlush_empty)
  qed
  show "pendingBytes (bufAppend line cn) = (if int (length line) > maxSize cn then [] else line)"
  proof (cases "line = []")
    case True
    then have "bufFlush 0 ?cn2 = ?cn2" by (intro bufFlush_empty) simp
    then show ?thesis unfolding a using True by simp
  next
    case False
    then have "pendingBytes (bufFlush 0 ?cn2) = []"
      using c2(1,2) by (intro bufFlush_open(2)) simp_all
    then show ?thesis unfolding a by simp
  qed
qed

lemma bufAppend_oversized:
  assumes "\<not> closed cn" and "line \<noteq> []" and "int (length line) > maxSize cn"
  shows "written (w (bufAppend line cn)) =
           written (w cn) @ (if pendingBytes cn = [] then [] else [pendingBytes cn]) @ [line]"
    and "pendingBytes (bufAppend line cn) = []"
proof -
  show "written (w (bufAppend line cn)) =
           written (w cn) @ (if pendingBytes cn = [] then [] else [pendingBytes cn]) @ [line]"
  proof (cases "pendingBytes cn = []")
    case True
    let ?cn2 = "cn\<lparr>pendingBytes := line\<rparr>"
    have "bufAppend line cn = bufFlush 0 ?cn2"
      using assms True by (simp add: bufAppend_def Let_def)
    moreover have "written (w (bufFlush 0 ?cn2)) = written (w ?cn2) @ [pendingBytes ?cn2]"
      using assms by (intro bufFlush_open(1)) simp_all
    ultimately show ?thesis using True by simp
  next
    case False
    have "int (length (pendingBytes cn)) + int (length line) + 1 > maxSize cn"
      using assms(3) by simp
    from bufAppend_overflow(1) [OF assms(1) False this] assms False show ?thesis by simp
  qed
  show "pendingBytes (bufAppend line cn) = []"
  proof (cases "pendingBytes cn = []")
    case True
    let ?cn2 = "cn\<lparr>pendingBytes := line\<rparr>"
    have "bufAppend line cn = bufFlush 0 ?cn2"
      using assms True by (simp add: bufAppend_def Let_def)
    moreover have "pendingBytes (bufFlush 0 ?cn2) = []"
      using assms by (intro bufFlush_open(2)) simp_all
    ultimately show ?thesis by simp
  next
    case False
    have "int (length (pendingBytes cn)) + int (length line) + 1 > maxSize cn"
      using assms(3) by simp
    from bufAppend_overflow(2) [OF assms(1) False this] assms show ?thesis by simp
  qed
qed

text \<open>
  The bound of section 3: an append to a buffer whose pending bytes fit \<open>maxSize\<close>
  leaves pending bytes that fit, the oversized line having gone out.
\<close>

lemma bufAppend_keeps_bound:
  assumes "0 \<le> maxSize cn" and "int (length (pendingBytes cn)) \<le> maxSize cn"
  shows "int (length (pendingBytes (bufAppend line cn))) \<le> maxSize cn"
proof (cases "closed cn")
  case True
  with assms show ?thesis by (simp add: bufAppend_closed)
next
  case op: False
  show ?thesis
  proof (cases "maxSize cn < int (length line)")
    case True
    with assms(1) have "line \<noteq> []" by auto
    from bufAppend_oversized(2) [OF op this True] assms(1) show ?thesis by simp
  next
    case fits: False
    show ?thesis
    proof (cases "pendingBytes cn \<noteq> []
        \<and> maxSize cn < int (length (pendingBytes cn)) + int (length line) + 1")
      case True
      then have "pendingBytes (bufAppend line cn) = line"
        using bufAppend_overflow(2) [OF op, of line] fits by simp
      with fits show ?thesis by simp
    next
      case False
      with op fits assms show ?thesis
        by (auto simp: bufAppend_def Let_def)
    qed
  qed
qed

lemma scenario_two:
  assumes "Conn_MaxPacketSize conf = 20"
  shows "bufRun [Append ''foo:1|c'', Append ''bar:1|c''] (newBuffer conf t) =
           (newBuffer conf t)\<lparr>pendingBytes := ''foo:1|c'' @ [CHR 0x0A] @ ''bar:1|c''\<rparr>"
  using assms by (simp add: bufRun_def bufAppend_def newBuffer_def Let_def)

subsection \<open>Claims about the Packet Buffer\<close>

text \<open>
  C1. Take any Packet Buffer reached from a new one by appends, flushes and closes,
  and a line such that the pending bytes are non-empty and, with the line and one
  separator byte, exceed \<open>maxSize\<close>. Appending the line issues exactly one write of
  the prior pending bytes before the line is appended: the line is then pending, or,
  when it alone exceeds \<open>maxSize\<close>, it follows at once as a write of its own. In
  particular with \<open>maxSize = 20\<close> the appends of \<^verbatim>\<open>foo:1|c\<close>, \<^verbatim>\<open>bar:1|c\<close> and
  \<^verbatim>\<open>baz:1|c\<close> write nothing until the third, which writes exactly the first two
  lines joined by a newline and leaves \<^verbatim>\<open>baz:1|c\<close> pending.
\<close>

theorem overflowing_append_flushes_prior_contents_once:
  "(cn = bufRun ops (newBuffer conf t) \<longrightarrow>
    pendingBytes cn \<noteq> [] \<longrightarrow>
    maxSize cn < int (length (pendingBytes cn)) + int (length line) + 1 \<longrightarrow>
      written (w (bufAppend line cn)) =
        written (w cn) @ [pendingBytes cn]
          @ (if maxSize cn < int (length line) \<and> line \<noteq> [] then [line] else [])
      \<and> pendingBytes (bufAppend line cn) = (if maxSize cn < int (length line) then [] else line))
   \<and> (Conn_MaxPacketSize conf = 20 \<longrightarrow>
        pendingBytes (bufRun [Append ''foo:1|c'', Append ''bar:1|c''] (newBuffer conf t))
          = ''foo:1|c'' @ [CHR 0x0A] @ ''bar:1|c''
      \<and> written (w (bufRun [Append ''foo:1|c'', Append ''bar:1|c''] (newBuffer conf t)))
          = written t
      \<and> written (w (bufRun [Append ''foo:1|c'', Append ''bar:1|c'', Append ''baz:1|c'']
                        (newBuffer conf t)))
          = written t @ [''foo:1|c'' @ [CHR 0x0A] @ ''bar:1|c'']
      \<and> pendingBytes (bufRun [Append ''foo:1|c'', Append ''bar:1|c'', Append ''baz:1|c'']
                        (newBuffer conf t))
          = ''baz:1|c'')"
proof (intro conjI impI)
  assume cn: "cn = bufRun ops (newBuffer conf t)" and ne: "pendingBytes cn \<noteq> []"
    and over: "maxSize cn < int (length (pendingBytes cn)) + int (length line) + 1"
  have "bufInv cn" unfolding cn by (rule bufInv_run)
  with ne have op: "\<not> closed cn" by (auto simp: bufInv_def)
  show "written (w (bufAppend line cn)) =
        written (w cn) @ [pendingBytes cn]
          @ (if maxSize cn < int (length line) \<and> line \<noteq> [] then [line] else [])"
    by (rule bufAppend_overflow(1) [OF op ne over])
  show "pendingBytes (bufAppend line cn) = (if maxSize cn < int (length line) then [] else line)"
    by (rule bufAppend_overflow(2) [OF op ne over])
next
  assume m: "Conn_MaxPacketSize conf = 20"
  show "pendingBytes (bufRun [Append ''foo:1|c'', Append ''bar:1|c''] (newBuffer conf t))
          = ''foo:1|c'' @ [CHR 0x0A] @ ''bar:1|c''"
    by (simp add: scenario_two [OF m])
  show "written (w (bufRun [Append ''foo:1|c'', Append ''bar:1|c''] (newBuffer conf t)))
          = written t"
    unfolding scenario_two [OF m] by (simp add: newBuffer_def)
  let ?cn2 = "(newBuffer conf t)\<lparr>pendingBytes := ''foo:1|c'' @ [CHR 0x0A] @ ''bar:1|c''\<rparr>"
  have r3: "bufRun [Append ''foo:1|c'', Append ''bar:1|c'', Append ''baz:1|c''] (newBuffer conf t)
          = bufAppend ''baz:1|c'' ?cn2"
    using scenario_two [OF m, of t] by (simp add: bufRun_def)
  have op: "\<not> closed ?cn2" and ne: "pendingBytes ?cn2 \<noteq> []"
    and over: "maxSize ?cn2 < int (length (pendingBytes ?cn2)) + int (length ''baz:1|c'') + 1"
    using m by (simp_all add: newBuffer_def)
  show "written (w (bufRun [Append ''foo:1|c'', Append ''bar:1|c'', Append ''baz:1|c'']
                        (newBuffer conf t)))
          = written t @ [''foo:1|c'' @ [CHR 0x0A] @ ''bar:1|c'']"
    unfolding r3 bufAppend_overflow(1) [OF op ne over] using m by (simp add: newBuffer_def)
  show "pendingBytes (bufRun [Append ''foo:1|c'', Append ''bar:1|c'', Append ''baz:1|c'']
                        (newBuffer conf t))
          = ''baz:1|c''"
    unfolding r3 bufAppend_overflow(2) [OF op ne over] using m by (simp add: newBuffer_def)
qed

theorem overflowing_append_flushes_prior_contents_once_witness:
  "pendingBytes (bufRun [Append ''foo:1|c'', Append ''bar:1|c'']
       (newBuffer ((Conn defaultConfig)\<lparr>Conn_MaxPacketSize := 20\<rparr>) idleTransport)) \<noteq> []
   \<and> maxSize (bufRun [Append ''foo:1|c'', Append ''bar:1|c'']
       (newBuffer ((Conn defaultConfig)\<lparr>Conn_MaxPacketSize := 20\<rparr>) idleTransport))
       < int (length (pendingBytes (bufRun [Append ''foo:1|c'', Append ''bar:1|c'']
           (newBuffer ((Conn defaultConfig)\<lparr>Conn_MaxPacketSize := 20\<rparr>) idleTransport))))
         + int (length ''baz:1|c'') + 1
   \<and> written (w (bufAppend ''baz:1|c'' (bufRun [Append ''foo:1|c'', Append ''bar:1|c'']
       (newBuffer ((Conn defaultConfig)\<lparr>Conn_MaxPacketSize := 20\<rparr>) idleTransport))))
       = [''foo:1|c'' @ [CHR 0x0A] @ ''bar:1|c'']
   \<and> pendingBytes (bufAppend ''baz:1|c'' (bufRun [Append ''foo:1|c'', Append ''bar:1|c'']
       (newBuffer ((Conn defaultConfig)\<lparr>Conn_MaxPacketSize := 20\<rparr>) idleTransport)))
       = ''baz:1|c''"
proof -
  let ?conf = "(Conn defaultConfig)\<lparr>Conn_MaxPacketSize := 20\<rparr>"
  let ?cn = "bufRun [Append ''foo:1|c'', Append ''bar:1|c''] (newBuffer ?conf idleTransport)"
  have m: "Conn_MaxPacketSize ?conf = 20" by simp
  have p: "pendingBytes ?cn = ''foo:1|c'' @ [CHR 0x0A] @ ''bar:1|c''"
    and wr: "written (w ?cn) = []" and ms: "maxSize ?cn = 20"
    unfolding scenario_two [OF m] by (simp_all add: newBuffer_def idleTransport_def)
  have ne: "pendingBytes ?cn \<noteq> []" and
    over: "maxSize ?cn < int (length (pendingBytes ?cn)) + int (length ''baz:1|c'') + 1"
    unfolding p ms by simp_all
  from overflowing_append_flushes_prior_contents_once
         [of ?cn "[Append ''foo:1|c'', Append ''bar:1|c'']" ?conf idleTransport "''baz:1|c''"]
       ne over
  have "written (w (bufAppend ''baz:1|c'' ?cn)) =
        written (w ?cn) @ [pendingBytes ?cn]
          @ (if maxSize ?cn < int (length ''baz:1|c'') \<and> ''baz:1|c'' \<noteq> [] then [''baz:1|c''] else [])"
    and "pendingBytes (bufAppend ''baz:1|c'' ?cn) = (if maxSize ?cn < int (length ''baz:1|c'') then [] else ''baz:1|c'')"
    by blast+
  then have "written (w (bufAppend ''baz:1|c'' ?cn)) = [''foo:1|c'' @ [CHR 0x0A] @ ''bar:1|c'']"
    and "pendingBytes (bufAppend ''baz:1|c'' ?cn) = ''baz:1|c''"
    unfolding p wr ms by simp_all
  with ne over show ?thesis by blast
qed

text \<open>
  C2. Appending a line whose length exceeds \<open>maxSize\<close> to a Packet Buffer that has not
  been closed writes the line to the Transport as a write of its own, unmodified, after
  the write of what was pending, if anything was; nothing stays pending. (An encoded
  line is never empty.)
\<close>

theorem oversized_line_is_written_alone:
  "\<not> closed cn \<longrightarrow> line \<noteq> [] \<longrightarrow> maxSize cn < int (length line) \<longrightarrow>
     written (w (bufAppend line cn)) =
       written (w cn) @ (if pendingBytes cn = [] then [] else [pendingBytes cn]) @ [line]
     \<and> pendingBytes (bufAppend line cn) = []"
  using bufAppend_oversized by blast

theorem oversized_line_is_written_alone_witness:
  "\<not> closed (bufAppend ''a:1|c'' (newBuffer ((Conn defaultConfig)\<lparr>Conn_MaxPacketSize := 8\<rparr>) idleTransport))
   \<and> ''request.latency:250|ms'' \<noteq> []
   \<and> maxSize (bufAppend ''a:1|c'' (newBuffer ((Conn defaultConfig)\<lparr>Conn_MaxPacketSize := 8\<rparr>) idleTransport))
        < int (length ''request.latency:250|ms'')
   \<and> written (w (bufAppend ''request.latency:250|ms''
         (bufAppend ''a:1|c'' (newBuffer ((Conn defaultConfig)\<lparr>Conn_MaxPacketSize := 8\<rparr>) idleTransport))))
        = [''a:1|c'', ''request.latency:250|ms'']
   \<and> pendingBytes (bufAppend ''request.latency:250|ms''
         (bufAppend ''a:1|c'' (newBuffer ((Conn defaultConfig)\<lparr>Conn_MaxPacketSize := 8\<rparr>) idleTransport)))
        = []"
proof -
  let ?cn = "bufAppend ''a:1|c'' (newBuffer ((Conn defaultConfig)\<lparr>Conn_MaxPacketSize := 8\<rparr>) idleTransport)"
  have cn: "?cn = (newBuffer ((Conn defaultConfig)\<lparr>Conn_MaxPacketSize := 8\<rparr>) idleTransport)\<lparr>pendingBytes := ''a:1|c''\<rparr>"
    by (simp add: bufAppend_def newBuffer_def Let_def)
  have h: "\<not> closed ?cn" "''request.latency:250|ms'' \<noteq> []"
    "maxSize ?cn < int (length ''request.latency:250|ms'')"
    unfolding cn by (simp_all add: newBuffer_def)
  have v: "written (w ?cn) = []" "pendingBytes ?cn = ''a:1|c''"
    unfolding cn by (simp_all add: newBuffer_def idleTransport_def)
  from oversized_line_is_written_alone [of ?cn "''request.latency:250|ms''"] h
  have "written (w (bufAppend ''request.latency:250|ms'' ?cn)) =
       written (w ?cn) @ (if pendingBytes ?cn = [] then [] else [pendingBytes ?cn]) @ [''request.latency:250|ms'']"
    and "pendingBytes (bufAppend ''request.latency:250|ms'' ?cn) = []"
    by blast+
  then have "written (w (bufAppend ''request.latency:250|ms'' ?cn)) = [''a:1|c'', ''request.latency:250|ms'']"
    and "pendingBytes (bufAppend ''request.latency:250|ms'' ?cn) = []"
    unfolding v by simp_all
  with h show ?thesis by blast
qed

section \<open>The connection under its lock\<close>

lemma updConn_id: "f (conns s a) = conns s a \<Longrightarrow> updConn a f s = s"
  by (simp add: updConn_def)

lemma conns_updConn: "conns (updConn a f s) = (conns s)(a := f (conns s a))"
  by (simp add: updConn_def)

lemma updConn_updConn: "updConn a f (updConn a g s) = updConn a (\<lambda>cn. f (g cn)) s"
  by (simp add: updConn_def)

lemma Lock_free: "\<not> mu (conns s a) \<Longrightarrow> Lock a s = Inr (updConn a (\<lambda>cn. cn\<lparr>mu := True\<rparr>) s)"
  by (simp add: Lock_def)

lemma Lock_held: "mu (conns s a) \<Longrightarrow> Lock a s = Inl Blocked"
  by (simp add: Lock_def)

lemma appendLocked_free:
  assumes "\<not> mu (conns s a)"
  shows "appendLocked a line s =
           Inr (updConn a (\<lambda>cn. (bufAppend line (cn\<lparr>mu := True\<rparr>))\<lparr>mu := False\<rparr>) s)"
  using assms
  by (simp add: appendLocked_def Lock_free andThen_def Unlock_def conns_updConn updConn_updConn)

lemma appendLocked_closed:
  assumes "closed (conns s a)" and "\<not> mu (conns s a)"
  shows "appendLocked a line s = Inr s"
proof -
  have "(bufAppend line ((conns s a)\<lparr>mu := True\<rparr>))\<lparr>mu := False\<rparr> = conns s a"
    using assms by (simp add: bufAppend_closed)
  then show ?thesis
    using assms(2) by (simp add: appendLocked_free updConn_id)
qed

lemma Flush_spec_free:
  assumes "conn c = Some a" and "\<not> muted c" and "\<not> mu (conns s a)"
  shows "Flush (specConn fmt) c s =
           Inr (updConn a (\<lambda>cn. (bufFlush 0 (cn\<lparr>mu := True\<rparr>))\<lparr>mu := False\<rparr>) s)"
  using assms
  by (simp add: Flush_def withConn_def specConn_def Lock_free andThen_def Unlock_def
      conns_updConn updConn_updConn)

lemma Flush_spec_closed:
  assumes "conn c = Some a" and "closed (conns s a)" and "\<not> mu (conns s a)"
  shows "Flush (specConn fmt) c s = Inr s"
proof (cases "muted c")
  case True
  then show ?thesis by (simp add: Flush_def)
next
  case False
  have "(bufFlush 0 ((conns s a)\<lparr>mu := True\<rparr>))\<lparr>mu := False\<rparr> = conns s a"
    using assms by (simp add: bufFlush_closed)
  then show ?thesis
    using assms False by (simp add: Flush_spec_free updConn_id)
qed

lemma Close_spec_free:
  assumes "conn c = Some a" and "\<not> muted c" and "\<not> mu (conns s a)"
  shows "Close (specConn fmt) c s =
           Inr (updConn a (\<lambda>cn. (bufClose (cn\<lparr>mu := True\<rparr>))\<lparr>mu := False\<rparr>) s)"
  using assms
  by (simp add: Close_def withConn_def specConn_def Lock_def andThen_def Unlock_def
      updConn_def bufClose_def Let_def split: prod.splits)

lemma Close_spec_returns:
  assumes "Close (specConn fmt) c s = Inr s1" and "\<not> muted c"
  shows "\<exists>a. conn c = Some a \<and> closed (conns s1 a) \<and> \<not> mu (conns s1 a)"
proof -
  from assms obtain a where a: "conn c = Some a"
    by (cases "conn c") (auto simp: Close_def withConn_def)
  have free: "\<not> mu (conns s a)"
  proof
    assume "mu (conns s a)"
    then have "Close (specConn fmt) c s = Inl Blocked"
      using a assms(2) by (simp add: Close_def withConn_def Lock_held andThen_def)
    with assms(1) show False by simp
  qed
  from Close_spec_free [OF a assms(2) free, of fmt] assms(1)
  have "s1 = updConn a (\<lambda>cn. (bufClose (cn\<lparr>mu := True\<rparr>))\<lparr>mu := False\<rparr>) s" by simp
  then show ?thesis using a by (simp add: conns_updConn)
qed

lemma metric_call_closed:
  assumes "conn c = Some a" and "closed (conns s a)" and "\<not> mu (conns s a)"
  shows "Count (specConn fmt) c bucket n flat r s =
           (if skip c r then Inr s else withConn c (\<lambda>a. andThen (tagstr c a flat s) (\<lambda>ts. Inr s)))"
    and "Gauge (specConn fmt) c bucket n flat r s =
           (if skip c r then Inr s else withConn c (\<lambda>a. andThen (tagstr c a flat s) (\<lambda>ts. Inr s)))"
    and "Timing (specConn fmt) c bucket n flat r s =
           (if skip c r then Inr s else withConn c (\<lambda>a. andThen (tagstr c a flat s) (\<lambda>ts. Inr s)))"
    and "Histogram (specConn fmt) c bucket n flat r s =
           (if skip c r then Inr s else withConn c (\<lambda>a. andThen (tagstr c a flat s) (\<lambda>ts. Inr s)))"
    and "Unique (specConn fmt) c bucket str flat r s =
           (if skip c r then Inr s else withConn c (\<lambda>a. andThen (tagstr c a flat s) (\<lambda>ts. Inr s)))"
  using assms
  by (simp_all add: Count_def Gauge_def Timing_def Histogram_def Unique_def withConn_def
      specConn_def appendLocked_closed)

lemma metric_call_muted:
  assumes "muted c"
  shows "Count m c bucket n flat r s =
           (if skip c r then Inr s else withConn c (\<lambda>a. andThen (tagstr c a flat s) (\<lambda>ts. Inr s)))"
    and "Gauge m c bucket n flat r s =
           (if skip c r then Inr s else withConn c (\<lambda>a. andThen (tagstr c a flat s) (\<lambda>ts. Inr s)))"
    and "Timing m c bucket n flat r s =
           (if skip c r then Inr s else withConn c (\<lambda>a. andThen (tagstr c a flat s) (\<lambda>ts. Inr s)))"
    and "Histogram m c bucket n flat r s =
           (if skip c r then Inr s else withConn c (\<lambda>a. andThen (tagstr c a flat s) (\<lambda>ts. Inr s)))"
    and "Unique m c bucket str flat r s =
           (if skip c r then Inr s else withConn c (\<lambda>a. andThen (tagstr c a flat s) (\<lambda>ts. Inr s)))"
  using assms
  by (simp_all add: Count_def Gauge_def Timing_def Histogram_def Unique_def skip_def)

lemma sinkError_alt:
  "sinkError err cn =
     cn\<lparr>handled := (if err \<noteq> None \<and> errorHandler cn \<noteq> None
                      then handled cn @ [the err] else handled cn)\<rparr>"
  by (cases err; cases "errorHandler cn") (simp_all add: sinkError_def)

lemma bufFlush_mu: "bufFlush d (cn\<lparr>mu := b\<rparr>) = (bufFlush d cn)\<lparr>mu := b\<rparr>"
  by (simp add: bufFlush_def sinkError_alt transportWrite_def)

lemma bufFlush_mu_pending:
  "bufFlush d (cn\<lparr>mu := b, pendingBytes := p\<rparr>) = (bufFlush d (cn\<lparr>pendingBytes := p\<rparr>))\<lparr>mu := b\<rparr>"
  by (simp add: bufFlush_def sinkError_alt transportWrite_def)

lemma bufAppend_mu: "bufAppend line (cn\<lparr>mu := b\<rparr>) = (bufAppend line cn)\<lparr>mu := b\<rparr>"
  by (simp add: bufAppend_def bufFlush_mu bufFlush_mu_pending Let_def)

lemma bufClose_mu: "bufClose (cn\<lparr>mu := b\<rparr>) = (bufClose cn)\<lparr>mu := b\<rparr>"
  by (simp add: bufClose_def bufFlush_mu sinkError_alt transportClose_def Let_def)

lemma unlocked_again:
  assumes "\<not> mu cn" and "\<And>b x. f (x\<lparr>mu := b\<rparr>) = (f x)\<lparr>mu := b\<rparr>" and "\<And>x. mu (f x) = mu x"
  shows "(f (cn\<lparr>mu := True\<rparr>))\<lparr>mu := False\<rparr> = f cn"
proof -
  have "(f (cn\<lparr>mu := True\<rparr>))\<lparr>mu := False\<rparr> = (f cn)\<lparr>mu := False\<rparr>"
    by (simp add: assms(2))
  also have "\<dots> = f cn" using assms(1,3) by simp
  finally show ?thesis .
qed

lemma appendLocked_is_bufAppend:
  assumes "\<not> mu (conns s a)"
  shows "appendLocked a line s = Inr (updConn a (bufAppend line) s)"
proof -
  have "(bufAppend line ((conns s a)\<lparr>mu := True\<rparr>))\<lparr>mu := False\<rparr> = bufAppend line (conns s a)"
    using assms by (intro unlocked_again) (simp_all add: bufAppend_mu)
  then show ?thesis using assms by (simp add: appendLocked_free updConn_def)
qed

lemma Flush_is_bufFlush:
  assumes "conn c = Some a" and "\<not> muted c" and "\<not> mu (conns s a)"
  shows "Flush (specConn fmt) c s = Inr (updConn a (bufFlush 0) s)"
proof -
  have "(bufFlush 0 ((conns s a)\<lparr>mu := True\<rparr>))\<lparr>mu := False\<rparr> = bufFlush 0 (conns s a)"
    using assms(3) by (intro unlocked_again) (simp_all add: bufFlush_mu)
  then show ?thesis using assms by (simp add: Flush_spec_free updConn_def)
qed

lemma Close_is_bufClose:
  assumes "conn c = Some a" and "\<not> muted c" and "\<not> mu (conns s a)"
  shows "Close (specConn fmt) c s = Inr (updConn a bufClose s)"
proof -
  have "(bufClose ((conns s a)\<lparr>mu := True\<rparr>))\<lparr>mu := False\<rparr> = bufClose (conns s a)"
    using assms(3) by (intro unlocked_again) (simp_all add: bufClose_mu)
  then show ?thesis using assms by (simp add: Close_spec_free updConn_def)
qed

lemma mergeTags_odd: "odd (length flat) \<Longrightarrow> mergeTags base flat = Inl oddTagsPanic"
  by (simp add: mergeTags_def oddTagsPanic_def odd_iff_mod_2_eq_one)

lemma Tags_odd: "odd (length flat) \<Longrightarrow> Tags flat = Inl oddTagsPanic"
  by (simp add: Tags_def oddTagsPanic_def odd_iff_mod_2_eq_one)

lemma mergeTags_even: "even (length flat) \<Longrightarrow> \<exists>ts. mergeTags base flat = Inr ts"
  by (simp add: mergeTags_def even_iff_mod_2_eq_zero)

lemma joinTags_known:
  "tf \<in> {0, InfluxDB, Datadog} \<Longrightarrow> \<exists>str. joinTags tf ts = Inr str"
  by (auto simp: joinTags_def joinFuncs_def)

lemma tagstr_ready:
  assumes "conn.tagFormat (conns s a) \<in> {0, InfluxDB, Datadog}"
  shows "(odd (length flat) \<and> tagstr c a flat s = Inl oddTagsPanic)
       \<or> (even (length flat) \<and> (\<exists>str. tagstr c a flat s = Inr str))"
proof (cases "even (length flat)")
  case True
  then obtain ts where "mergeTags (tags c) flat = Inr ts" using mergeTags_even by blast
  moreover obtain str where "joinTags (conn.tagFormat (conns s a)) ts = Inr str"
    using joinTags_known [OF assms] by blast
  ultimately show ?thesis using True by (simp add: tagstr_def andThen_def)
next
  case False
  then show ?thesis by (simp add: tagstr_def andThen_def mergeTags_odd)
qed

section \<open>Clients\<close>

subsection \<open>Cloning and muting\<close>

lemma muted_skip: "muted c \<Longrightarrow> skip c r"
  by (simp add: skip_def)

lemma applyOpts_total:
  "(\<forall>opt\<in>set opts. \<forall>cf. \<exists>cf'. opt cf = Inr cf') \<Longrightarrow> \<exists>conf. applyOpts opts cf = Inr conf"
proof (induction opts arbitrary: cf)
  case Nil
  then show ?case by simp
next
  case (Cons opt opts)
  then obtain cf' where "opt cf = Inr cf'" by (meson list.set_intros(1))
  moreover have "\<exists>conf. applyOpts opts cf' = Inr conf"
    using Cons.prems by (intro Cons.IH) simp
  ultimately show ?case by (simp add: andThen_def)
qed

lemma Clone_Inr:
  assumes "Clone c opts = Inr c'"
  shows "conn c' = conn c" and "muted c \<Longrightarrow> muted c'"
  using assms by (auto simp: Clone_def andThen_def Let_def split: sum.splits)

lemma Clone_total:
  assumes "\<forall>opt\<in>set opts. \<forall>cf. \<exists>cf'. opt cf = Inr cf'"
  shows "\<exists>c'. Clone c opts = Inr c'"
proof -
  obtain conf where "applyOpts opts
        \<lparr>Conn = \<lparr>Conn_Addr = [], Conn_ErrorHandler = None, Conn_FlushPeriod = 0,
                 Conn_MaxPacketSize = 0, Conn_Network = [], Conn_TagFormat = 0\<rparr>,
         Client = \<lparr>Client_Muted = False, Client_Rate = rate c, Client_Prefix = prefix c,
                   Client_Tags = tags c\<rparr>\<rparr> = Inr conf"
    using applyOpts_total [OF assms] by blast
  then show ?thesis by (simp add: Clone_def andThen_def Let_def)
qed

lemma Clone_Mute_False:
  "\<exists>c'. Clone c [Mute False] = Inr c' \<and> muted c' = muted c \<and> conn c' = conn c"
  by (simp add: Clone_def Mute_def andThen_def Let_def)

text \<open>
  C9. For every client \<open>c\<close> and every list of options, a clone that \<^verbatim>\<open>c.Clone\<close>
  returns is muted whenever \<open>c\<close> is, and holds the address of the connection that
  \<open>c\<close> holds; \<^verbatim>\<open>Clone\<close> returns whenever no option panics; and the option
  \<^verbatim>\<open>Mute(false)\<close> leaves the clone exactly as muted as \<open>c\<close>.
\<close>

theorem clone_keeps_muted_and_connection:
  "(\<forall>c'. Clone c opts = Inr c' \<longrightarrow> (muted c \<longrightarrow> muted c') \<and> conn c' = conn c)
   \<and> ((\<forall>opt\<in>set opts. \<forall>cf. \<exists>cf'. opt cf = Inr cf') \<longrightarrow> (\<exists>c'. Clone c opts = Inr c'))
   \<and> (\<exists>c'. Clone c [Mute False] = Inr c' \<and> muted c' = muted c \<and> conn c' = conn c)"
  using Clone_Inr Clone_total Clone_Mute_False by blast

lemma mergeTags_Nil: "mergeTags base [] = Inr base"
  by (simp add: mergeTags_def)

lemma tagstr_Nil: "tagstr c a [] s = joinTags (conn.tagFormat (conns s a)) (tags c)"
  by (simp add: tagstr_def mergeTags_Nil andThen_def)

text \<open>
  C10. For every client and bucket, \<^verbatim>\<open>Increment(b)\<close> is \<^verbatim>\<open>Count(b, 1)\<close> with no
  tags: the same \<^verbatim>\<open>skip\<close> check, the join of the client's own tags under the
  connection's tag format, and the same call of \<^verbatim>\<open>conn.metric\<close> with the type
  \<^verbatim>\<open>c\<close>, whatever that method does.
\<close>

theorem Increment_is_Count_one:
  "Increment m c bucket r s = Count m c bucket (VInt 1) [] r s
   \<and> Increment m c bucket r s =
       (if skip c r then Inr s
        else withConn c (\<lambda>a.
               andThen (joinTags (conn.tagFormat (conns s a)) (tags c))
                 (\<lambda>ts. metric m a (prefix c) bucket (VInt 1) ''c'' (rate c) ts s)))"
  by (simp add: Increment_def Count_def tagstr_Nil)

lemma muted_calls:
  assumes "muted c"
  shows "Count m c bucket n flat r s = Inr s"
    and "Increment m c bucket r s = Inr s"
    and "Gauge m c bucket n flat r s = Inr s"
    and "Timing m c bucket n flat r s = Inr s"
    and "Histogram m c bucket n flat r s = Inr s"
    and "Unique m c bucket str flat r s = Inr s"
    and "Send m c duration bucket r s = Inr s"
    and "Flush m c s = Inr s"
    and "Close m c s = Inr s"
  using assms
  by (simp_all add: Count_def Increment_def Gauge_def Timing_def Histogram_def Unique_def
      Send_def Flush_def Close_def muted_skip)

lemma New_failed:
  assumes "applyOpts opts defaultConfig = Inr conf"
    and "newConn (Conn conf) (Client_Muted (Client conf)) s = ((p, Some e), s')"
  shows "New newConn opts s =
           Inr ((\<lparr>conn = p, muted = True, rate = Finite 0, prefix = [],
                  Client.tagFormat = 0, tags = []\<rparr>, Some e), s')"
  using assms by (simp add: New_def andThen_def)

text \<open>
  C4. When \<^verbatim>\<open>newConn\<close> returns an error, \<^verbatim>\<open>New\<close> returns that error together with
  a client that is muted, whatever \<^verbatim>\<open>newConn\<close> is. On that client every metric call,
  \<^verbatim>\<open>Flush\<close> and \<^verbatim>\<open>Close\<close> returns at once and leaves every store as it was,
  whatever the methods of the connection do and whether or not its mutex is held, and
  every clone of it is muted.
\<close>

theorem failed_construction_gives_muted_client:
  assumes "applyOpts opts defaultConfig = Inr conf"
    and "newConn (Conn conf) (Client_Muted (Client conf)) s = ((p, Some e), s')"
  shows "\<exists>c. New newConn opts s = Inr ((c, Some e), s')
           \<and> muted c
           \<and> (\<forall>m bucket n flat str duration r s2.
                 Count m c bucket n flat r s2 = Inr s2
               \<and> Increment m c bucket r s2 = Inr s2
               \<and> Gauge m c bucket n flat r s2 = Inr s2
               \<and> Timing m c bucket n flat r s2 = Inr s2
               \<and> Histogram m c bucket n flat r s2 = Inr s2
               \<and> Unique m c bucket str flat r s2 = Inr s2
               \<and> Send m c duration bucket r s2 = Inr s2
               \<and> Flush m c s2 = Inr s2
               \<and> Close m c s2 = Inr s2)
           \<and> (\<forall>opts2 c2. Clone c opts2 = Inr c2 \<longrightarrow> muted c2)"
proof -
  let ?c = "\<lparr>conn = p, muted = True, rate = Finite 0, prefix = [],
                  Client.tagFormat = 0, tags = []\<rparr>"
  have m: "muted ?c" by simp
  have "New newConn opts s = Inr ((?c, Some e), s')"
    using assms by (rule New_failed)
  moreover have "\<forall>opts2 c2. Clone ?c opts2 = Inr c2 \<longrightarrow> muted c2"
    using Clone_Inr(2) [OF _ m] by blast
  ultimately show ?thesis
    using muted_calls [OF m] m by (intro exI [of _ ?c]) (simp only: simp_thms)
qed

section \<open>Failing and closing\<close>

lemma ready_call:
  assumes "ready c s"
    and "\<And>a ts. conn c = Some a \<Longrightarrow> \<not> mu (conns s a) \<Longrightarrow> \<exists>s'. f a ts = Inr s'"
  shows "onlyInvalidArgument
           (if skip c r then Inr s else withConn c (\<lambda>a. andThen (tagstr c a flat s) (f a)))"
    and "\<not> skip c r \<Longrightarrow> odd (length flat) \<Longrightarrow>
           (if skip c r then Inr s else withConn c (\<lambda>a. andThen (tagstr c a flat s) (f a)))
             = Inl oddTagsPanic"
    and "even (length flat) \<Longrightarrow>
           \<exists>s'. (if skip c r then Inr s else withConn c (\<lambda>a. andThen (tagstr c a flat s) (f a)))
             = Inr s'"
proof -
  let ?call = "if skip c r then Inr s else withConn c (\<lambda>a. andThen (tagstr c a flat s) (f a))"
  have all: "onlyInvalidArgument ?call
           \<and> (\<not> skip c r \<longrightarrow> odd (length flat) \<longrightarrow> ?call = Inl oddTagsPanic)
           \<and> (even (length flat) \<longrightarrow> (\<exists>s'. ?call = Inr s'))"
  proof (cases "skip c r")
    case True
    then show ?thesis by (simp add: onlyInvalidArgument_def)
  next
    case False
    then have "\<not> muted c" by (simp add: skip_def)
    with assms(1) obtain a where a: "conn c = Some a" and free: "\<not> mu (conns s a)"
      and tf: "conn.tagFormat (conns s a) \<in> {0, InfluxDB, Datadog}"
      by (auto simp: ready_def split: option.splits)
    from tagstr_ready [OF tf, of flat c]
    consider "odd (length flat)" "tagstr c a flat s = Inl oddTagsPanic"
      | str where "even (length flat)" "tagstr c a flat s = Inr str"
      by blast
    then show ?thesis
    proof cases
      case 1
      with False a show ?thesis
        by (simp add: withConn_def andThen_def onlyInvalidArgument_def)
    next
      case 2
      obtain s' where "f a str = Inr s'" using assms(2) [OF a free] by blast
      with 2 False a show ?thesis
        by (simp add: withConn_def andThen_def onlyInvalidArgument_def)
    qed
  qed
  from all show "onlyInvalidArgument ?call" by blast
  from all show "\<not> skip c r \<Longrightarrow> odd (length flat) \<Longrightarrow> ?call = Inl oddTagsPanic" by blast
  from all show "even (length flat) \<Longrightarrow> \<exists>s'. ?call = Inr s'" by blast
qed

lemma spec_methods_return:
  assumes "\<not> mu (conns s a)"
  shows "\<exists>s'. metric (specConn fmt) a pfx bucket n typ x suffix s = Inr s'"
    and "\<exists>s'. gauge (specConn fmt) a pfx bucket n suffix s = Inr s'"
    and "\<exists>s'. unique (specConn fmt) a pfx bucket str suffix s = Inr s'"
  using assms by (simp_all add: specConn_def appendLocked_is_bufAppend)

lemma ready_Flush_Close:
  assumes "ready c s"
  shows "\<exists>s'. Flush (specConn fmt) c s = Inr s'" and "\<exists>s'. Close (specConn fmt) c s = Inr s'"
proof -
  have "(\<exists>s'. Flush (specConn fmt) c s = Inr s') \<and> (\<exists>s'. Close (specConn fmt) c s = Inr s')"
  proof (cases "muted c")
    case True
    then show ?thesis by (simp add: Flush_def Close_def)
  next
    case False
    with assms obtain a where a: "conn c = Some a" and free: "\<not> mu (conns s a)"
      by (auto simp: ready_def split: option.splits)
    show ?thesis
      by (simp add: Flush_is_bufFlush [OF a False free] Close_is_bufClose [OF a False free])
  qed
  then show "\<exists>s'. Flush (specConn fmt) c s = Inr s'" and "\<exists>s'. Close (specConn fmt) c s = Inr s'"
    by blast+
qed

text \<open>
  C6, as the code has it. For every flat sequence of odd length \<^verbatim>\<open>mergeTags\<close> and
  \<^verbatim>\<open>Tags\<close> panic with the InvalidArgument message. On a client that is ready (muted,
  or holding a connection whose mutex is free and whose tag format is unset, InfluxDB or
  Datadog) that panic is the only way a metric call fails, it does fail so when the call
  is not skipped and the sequence is odd, and \<^verbatim>\<open>Increment\<close>, \<^verbatim>\<open>Send\<close>,
  \<^verbatim>\<open>Flush\<close> and \<^verbatim>\<open>Close\<close> return.
\<close>

theorem odd_tags_panic_is_the_only_failure_of_a_call:
  "(odd (length flat) \<longrightarrow> mergeTags base flat = Inl oddTagsPanic \<and> Tags flat = Inl oddTagsPanic)
   \<and> (ready c s \<longrightarrow>
         onlyInvalidArgument (Count (specConn fmt) c bucket n flat r s)
       \<and> onlyInvalidArgument (Gauge (specConn fmt) c bucket n flat r s)
       \<and> onlyInvalidArgument (Timing (specConn fmt) c bucket n flat r s)
       \<and> onlyInvalidArgument (Histogram (specConn fmt) c bucket n flat r s)
       \<and> onlyInvalidArgument (Unique (specConn fmt) c bucket str flat r s)
       \<and> (\<not> skip c r \<longrightarrow> odd (length flat) \<longrightarrow>
             Count (specConn fmt) c bucket n flat r s = Inl oddTagsPanic)
       \<and> (\<exists>s'. Increment (specConn fmt) c bucket r s = Inr s')
       \<and> (\<exists>s'. Send (specConn fmt) c duration bucket r s = Inr s')
       \<and> (\<exists>s'. Flush (specConn fmt) c s = Inr s')
       \<and> (\<exists>s'. Close (specConn fmt) c s = Inr s'))"
proof (intro conjI impI)
  assume "odd (length flat)"
  then show "mergeTags base flat = Inl oddTagsPanic" by (rule mergeTags_odd)
next
  assume "odd (length flat)"
  then show "Tags flat = Inl oddTagsPanic" by (rule Tags_odd)
next
  assume rd: "ready c s"
  show "onlyInvalidArgument (Count (specConn fmt) c bucket n flat r s)"
    unfolding Count_def by (rule ready_call(1) [OF rd]) (rule spec_methods_return)
next
  assume rd: "ready c s"
  show "onlyInvalidArgument (Gauge (specConn fmt) c bucket n flat r s)"
    unfolding Gauge_def by (rule ready_call(1) [OF rd]) (rule spec_methods_return)
next
  assume rd: "ready c s"
  show "onlyInvalidArgument (Timing (specConn fmt) c bucket n flat r s)"
    unfolding Timing_def by (rule ready_call(1) [OF rd]) (rule spec_methods_return)
next
  assume rd: "ready c s"
  show "onlyInvalidArgument (Histogram (specConn fmt) c bucket n flat r s)"
    unfolding Histogram_def by (rule ready_call(1) [OF rd]) (rule spec_methods_return)
next
  assume rd: "ready c s"
  show "onlyInvalidArgument (Unique (specConn fmt) c bucket str flat r s)"
    unfolding Unique_def by (rule ready_call(1) [OF rd]) (rule spec_methods_return)
next
  assume rd: "ready c s" and "\<not> skip c r" "odd (length flat)"
  then show "Count (specConn fmt) c bucket n flat r s = Inl oddTagsPanic"
    unfolding Count_def by (intro ready_call(2) [OF rd]) (rule spec_methods_return)
next
  assume rd: "ready c s"
  show "\<exists>s'. Increment (specConn fmt) c bucket r s = Inr s'"
    unfolding Increment_def Count_def
    by (rule ready_call(3) [OF rd]) (rule spec_methods_return, simp_all)
next
  assume rd: "ready c s"
  show "\<exists>s'. Send (specConn fmt) c duration bucket r s = Inr s'"
    unfolding Send_def Timing_def
    by (rule ready_call(3) [OF rd]) (rule spec_methods_return, simp_all)
next
  assume rd: "ready c s"
  then show "\<exists>s'. Flush (specConn fmt) c s = Inr s'" by (rule ready_Flush_Close)
next
  assume rd: "ready c s"
  then show "\<exists>s'. Close (specConn fmt) c s = Inr s'" by (rule ready_Flush_Close)
qed

text \<open>
  C3. Once \<^verbatim>\<open>Close\<close> has returned on a client, in every later store that holds the
  client's connection as \<^verbatim>\<open>Close\<close> left it, \<^verbatim>\<open>Flush\<close> returns and leaves the
  store as it is, and so does every metric call, which can fail only before it reaches
  the connection, in \<^verbatim>\<open>mergeTags\<close> or \<^verbatim>\<open>joinTags\<close>, and does not fail on a ready
  client with an even number of tag strings; on the connection itself, when the client
  is not muted, every append and every flush is the identity. Nothing is written and
  the Transport is not touched.
\<close>

theorem calls_after_Close_are_noops:
  assumes "Close (specConn fmt) c s = Inr s1"
    and "\<forall>a. conn c = Some a \<longrightarrow> conns s2 a = conns s1 a"
  shows "Flush (specConn fmt) c s2 = Inr s2
     \<and> Count (specConn fmt) c bucket n flat r s2 =
         (if skip c r then Inr s2 else withConn c (\<lambda>a. andThen (tagstr c a flat s2) (\<lambda>ts. Inr s2)))
     \<and> Gauge (specConn fmt) c bucket n flat r s2 =
         (if skip c r then Inr s2 else withConn c (\<lambda>a. andThen (tagstr c a flat s2) (\<lambda>ts. Inr s2)))
     \<and> Timing (specConn fmt) c bucket n flat r s2 =
         (if skip c r then Inr s2 else withConn c (\<lambda>a. andThen (tagstr c a flat s2) (\<lambda>ts. Inr s2)))
     \<and> Histogram (specConn fmt) c bucket n flat r s2 =
         (if skip c r then Inr s2 else withConn c (\<lambda>a. andThen (tagstr c a flat s2) (\<lambda>ts. Inr s2)))
     \<and> Unique (specConn fmt) c bucket str flat r s2 =
         (if skip c r then Inr s2 else withConn c (\<lambda>a. andThen (tagstr c a flat s2) (\<lambda>ts. Inr s2)))
     \<and> (ready c s2 \<longrightarrow> even (length flat) \<longrightarrow>
           Count (specConn fmt) c bucket n flat r s2 = Inr s2
         \<and> Gauge (specConn fmt) c bucket n flat r s2 = Inr s2
         \<and> Timing (specConn fmt) c bucket n flat r s2 = Inr s2
         \<and> Histogram (specConn fmt) c bucket n flat r s2 = Inr s2
         \<and> Unique (specConn fmt) c bucket str flat r s2 = Inr s2)
     \<and> (\<not> muted c \<longrightarrow>
           (\<exists>a. conn c = Some a \<and> closed (conns s2 a)
              \<and> (\<forall>line d. bufAppend line (conns s2 a) = conns s2 a
                         \<and> bufFlush d (conns s2 a) = conns s2 a)))"
proof -
  let ?noop = "if skip c r then Inr s2 else withConn c (\<lambda>a. andThen (tagstr c a flat s2) (\<lambda>ts. Inr s2))"
  have eqs: "Flush (specConn fmt) c s2 = Inr s2
     \<and> Count (specConn fmt) c bucket n flat r s2 = ?noop
     \<and> Gauge (specConn fmt) c bucket n flat r s2 = ?noop
     \<and> Timing (specConn fmt) c bucket n flat r s2 = ?noop
     \<and> Histogram (specConn fmt) c bucket n flat r s2 = ?noop
     \<and> Unique (specConn fmt) c bucket str flat r s2 = ?noop
     \<and> (\<not> muted c \<longrightarrow>
           (\<exists>a. conn c = Some a \<and> closed (conns s2 a)
              \<and> (\<forall>line d. bufAppend line (conns s2 a) = conns s2 a
                         \<and> bufFlush d (conns s2 a) = conns s2 a)))"
  proof (cases "muted c")
    case True
    then show ?thesis
      using metric_call_muted [OF True] by (simp add: Flush_def)
  next
    case False
    from Close_spec_returns [OF assms(1) False] obtain a
      where a: "conn c = Some a" and "closed (conns s1 a)" and "\<not> mu (conns s1 a)" by blast
    with assms(2) have cl: "closed (conns s2 a)" and free: "\<not> mu (conns s2 a)" by simp_all
    have "\<forall>line d. bufAppend line (conns s2 a) = conns s2 a \<and> bufFlush d (conns s2 a) = conns s2 a"
      using cl by (simp add: bufAppend_closed bufFlush_closed)
    with a cl show ?thesis
      using metric_call_closed [OF a cl free] Flush_spec_closed [OF a cl free] by simp
  qed
  have noop: "?noop = Inr s2" if rd: "ready c s2" and ev: "even (length flat)"
  proof -
    have "\<exists>s'. ?noop = Inr s'"
      by (rule ready_call(3) [OF rd _ ev]) simp
    then obtain s' where s': "?noop = Inr s'" by blast
    then have "s' = s2"
      by (auto simp: withConn_def andThen_def split: if_splits option.splits sum.splits)
    with s' show ?thesis by simp
  qed
  from eqs noop show ?thesis by simp
qed

subsection \<open>Examples\<close>

lemma New_accepting:
  "New (newConnSpec acceptingDialer) [TagsFormat tf] emptyWorld
     = Inr ((firstClient, None), firstWorld tf)"
  by (simp add: New_def newConnSpec_def acceptingDialer_def TagsFormat_def defaultConfig_def
      andThen_def emptyWorld_def firstClient_def firstWorld_def)

lemma New_refusing:
  "New (newConnSpec refusingDialer) [Network ''tcp''] emptyWorld
     = Inr ((\<lparr>conn = None, muted = True, rate = Finite 0, prefix = [],
              Client.tagFormat = 0, tags = []\<rparr>, Some (ConnectionError ''connection refused'')),
            emptyWorld)"
  by (simp add: New_def newConnSpec_def refusingDialer_def Network_def defaultConfig_def
      andThen_def)

lemma tagFormat_bufClose: "conn.tagFormat (bufClose cn) = conn.tagFormat cn"
  by (simp add: bufClose_def Let_def split: prod.splits)

lemma firstWorld_conn:
  "conns (firstWorld tf) 0 = newBuffer ((Conn defaultConfig)\<lparr>Conn_TagFormat := tf\<rparr>) idleTransport"
  by (simp add: firstWorld_def)

lemma firstWorld_free: "\<not> mu (conns (firstWorld tf) 0)"
  by (simp add: firstWorld_conn newBuffer_def)

lemma firstClient_simps:
  "conn firstClient = Some 0" "\<not> muted firstClient" "\<not> skip firstClient r"
  "tags firstClient = []" "prefix firstClient = []" "rate firstClient = Finite 1"
  by (simp_all add: firstClient_def skip_def)

lemma Increment_first:
  "Increment (specConn plainFormatter) firstClient ''foo'' r (firstWorld 0)
     = Inr (updConn 0 (bufAppend ''foo:1|c'') (firstWorld 0))"
  by (simp add: Increment_def Count_def firstClient_simps withConn_def tagstr_Nil joinTags_def
      andThen_def specConn_def appendLocked_is_bufAppend [OF firstWorld_free]
      encodeLine_def plainFormatter_def)

text \<open>
  The claim C6 as the spec states it fails in its second half: \<^verbatim>\<open>New\<close> returns the
  ConnectionError of a refused connection to its caller, and under a tag format that
  \<^verbatim>\<open>joinFuncs\<close> does not know a metric call with tags panics on the call of a nil
  function.
\<close>

theorem only_error_class_counterexample:
  "New (newConnSpec refusingDialer) [Network ''tcp''] emptyWorld
     = Inr ((\<lparr>conn = None, muted = True, rate = Finite 0, prefix = [],
              Client.tagFormat = 0, tags = []\<rparr>, Some (ConnectionError ''connection refused'')),
            emptyWorld)
   \<and> ConnectionError ''connection refused'' \<noteq> oddTagsPanic
   \<and> New (newConnSpec acceptingDialer) [TagsFormat 3] emptyWorld
     = Inr ((firstClient, None), firstWorld 3)
   \<and> Count (specConn plainFormatter) firstClient ''hits'' (VInt 1) [''k'', ''v''] (Finite 0)
        (firstWorld 3) = Inl NilDereference
   \<and> NilDereference \<noteq> oddTagsPanic"
proof -
  have "mergeTags [] [''k'', ''v''] = Inr [\<lparr>K = ''k'', V = ''v''\<rparr>]"
    by (simp add: mergeTags_def mergeLoop.simps)
  then have "Count (specConn plainFormatter) firstClient ''hits'' (VInt 1) [''k'', ''v''] (Finite 0)
        (firstWorld 3) = Inl NilDereference"
    by (simp add: Count_def firstClient_simps withConn_def tagstr_def andThen_def
        firstWorld_conn newBuffer_def joinTags_def joinFuncs_def InfluxDB_def Datadog_def)
  then show ?thesis
    by (simp add: New_refusing New_accepting oddTagsPanic_def)
qed

theorem odd_tags_panic_is_the_only_failure_of_a_call_witness:
  "ready firstClient (firstWorld InfluxDB)
   \<and> odd (length [''k''])
   \<and> \<not> skip firstClient (Finite 0)
   \<and> mergeTags [] [''k''] = Inl oddTagsPanic
   \<and> Tags [''k''] = Inl oddTagsPanic
   \<and> Count (specConn plainFormatter) firstClient ''hits'' (VInt 1) [''k''] (Finite 0)
        (firstWorld InfluxDB) = Inl oddTagsPanic
   \<and> (\<exists>s'. Increment (specConn plainFormatter) firstClient ''hits'' (Finite 0)
               (firstWorld InfluxDB) = Inr s')
   \<and> (\<exists>s'. Flush (specConn plainFormatter) firstClient (firstWorld InfluxDB) = Inr s')
   \<and> (\<exists>s'. Close (specConn plainFormatter) firstClient (firstWorld InfluxDB) = Inr s')"
proof -
  have rd: "ready firstClient (firstWorld InfluxDB)"
    by (simp add: ready_def firstClient_simps firstWorld_conn newBuffer_def)
  have od: "odd (length [''k''])" by simp
  have sk: "\<not> skip firstClient (Finite 0)" by (rule firstClient_simps)
  from odd_tags_panic_is_the_only_failure_of_a_call
         [of "[''k'']" "[]" firstClient "firstWorld InfluxDB" plainFormatter "''hits''" "VInt 1"
             "Finite 0" "''x''" 0]
       rd od sk
  show ?thesis by blast
qed

theorem calls_after_Close_are_noops_witness:
  "\<exists>s s1. Increment (specConn plainFormatter) firstClient ''foo'' (Finite 0) (firstWorld 0) = Inr s
        \<and> pendingBytes (conns s 0) = ''foo:1|c''
        \<and> Close (specConn plainFormatter) firstClient s = Inr s1
        \<and> written (w (conns s1 0)) = [''foo:1|c'']
        \<and> closeCalls (w (conns s1 0)) = 1
        \<and> Flush (specConn plainFormatter) firstClient s1 = Inr s1
        \<and> Count (specConn plainFormatter) firstClient ''bar'' (VInt 1) [''k'', ''v''] (Finite 0) s1
             = Inr s1"
proof -
  let ?s = "updConn 0 (bufAppend ''foo:1|c'') (firstWorld 0)"
  let ?s1 = "updConn 0 bufClose ?s"
  have cn: "conns ?s 0 = (newBuffer (Conn defaultConfig) idleTransport)\<lparr>pendingBytes := ''foo:1|c''\<rparr>"
    by (simp add: updConn_def firstWorld_def bufAppend_def newBuffer_def defaultConfig_def Let_def)
  have free: "\<not> mu (conns ?s 0)" unfolding cn by (simp add: newBuffer_def)
  have i: "Increment (specConn plainFormatter) firstClient ''foo'' (Finite 0) (firstWorld 0) = Inr ?s"
    by (rule Increment_first)
  have p: "pendingBytes (conns ?s 0) = ''foo:1|c''" unfolding cn by simp
  have cl: "Close (specConn plainFormatter) firstClient ?s = Inr ?s1"
    by (rule Close_is_bufClose [OF firstClient_simps(1) firstClient_simps(2) free])
  have cn1: "conns ?s1 0 = bufClose (conns ?s 0)" by (simp add: updConn_def)
  have wr: "written (w (conns ?s1 0)) = [''foo:1|c'']" "closeCalls (w (conns ?s1 0)) = 1"
    unfolding cn1 cn
    by (simp_all add: bufClose_def bufFlush_def transportWrite_def transportClose_def
        sinkError_alt newBuffer_def idleTransport_def Let_def)
  have rd: "ready firstClient ?s1"
    by (simp add: ready_def firstClient_simps cn1 cn tagFormat_bufClose defaultConfig_def
        newBuffer_def)
  have ag: "\<forall>a. conn firstClient = Some a \<longrightarrow> conns ?s1 a = conns ?s1 a" by simp
  have ev: "even (length [''k'', ''v''])" by simp
  from calls_after_Close_are_noops
         [OF cl ag, where bucket = "''bar''" and n = "VInt 1" and flat = "[''k'', ''v'']"
            and r = "Finite 0" and str = "''x''"] rd ev
  have "Flush (specConn plainFormatter) firstClient ?s1 = Inr ?s1"
    and "Count (specConn plainFormatter) firstClient ''bar'' (VInt 1) [''k'', ''v''] (Finite 0) ?s1
             = Inr ?s1"
    by blast+
  with i p cl wr show ?thesis by blast
qed

theorem failed_construction_gives_muted_client_witness:
  "\<exists>c. New (newConnSpec refusingDialer) [Network ''tcp''] emptyWorld
          = Inr ((c, Some (ConnectionError ''connection refused'')), emptyWorld)
      \<and> muted c
      \<and> Count (specConn plainFormatter) c ''hits'' (VInt 1) [''odd''] (Finite 0) (firstWorld 0)
          = Inr (firstWorld 0)
      \<and> Flush (specConn plainFormatter) c (firstWorld 0) = Inr (firstWorld 0)
      \<and> Close (specConn plainFormatter) c (firstWorld 0) = Inr (firstWorld 0)"
proof -
  have o: "applyOpts [Network ''tcp''] defaultConfig
             = Inr (defaultConfig\<lparr>Conn := (Conn defaultConfig)\<lparr>Conn_Network := ''tcp''\<rparr>\<rparr>)"
    by (simp add: Network_def andThen_def)
  have n: "newConnSpec refusingDialer
             (Conn (defaultConfig\<lparr>Conn := (Conn defaultConfig)\<lparr>Conn_Network := ''tcp''\<rparr>\<rparr>))
             (Client_Muted (Client (defaultConfig\<lparr>Conn := (Conn defaultConfig)\<lparr>Conn_Network := ''tcp''\<rparr>\<rparr>)))
             emptyWorld
           = ((None, Some (ConnectionError ''connection refused'')), emptyWorld)"
    by (simp add: newConnSpec_def refusingDialer_def)
  from failed_construction_gives_muted_client
         [where opts = "[Network ''tcp'']" and newConn = "newConnSpec refusingDialer"
            and conf = "defaultConfig\<lparr>Conn := (Conn defaultConfig)\<lparr>Conn_Network := ''tcp''\<rparr>\<rparr>"
            and s = emptyWorld and s' = emptyWorld and p = None
            and e = "ConnectionError ''connection refused''"] o n
  show ?thesis by blast
qed

theorem clone_keeps_muted_and_connection_witness:
  "\<exists>c'. Clone (firstClient\<lparr>muted := True\<rparr>) [Mute False, Prefix ''app''] = Inr c'
      \<and> muted c' \<and> conn c' = Some 0 \<and> prefix c' = ''app.''"
proof -
  have t: "\<forall>opt\<in>set [Mute False, Prefix ''app'']. \<forall>cf. \<exists>cf'. opt cf = Inr cf'"
    by (simp add: Mute_def Prefix_def)
  from clone_keeps_muted_and_connection [of "firstClient\<lparr>muted := True\<rparr>" "[Mute False, Prefix ''app'']"] t
  obtain c' where c': "Clone (firstClient\<lparr>muted := True\<rparr>) [Mute False, Prefix ''app''] = Inr c'"
    and "muted c'" and "conn c' = Some 0"
    by (auto simp: firstClient_def)
  moreover from c' have "prefix c' = ''app.''"
    by (auto simp: Clone_def Mute_def Prefix_def TrimSuffix_def andThen_def firstClient_def)
  ultimately show ?thesis by blast
qed

theorem Increment_is_Count_one_witness:
  "Increment (specConn plainFormatter) firstClient ''foo'' (Finite 0) (firstWorld 0)
     = Inr (updConn 0 (bufAppend ''foo:1|c'') (firstWorld 0))
   \<and> Count (specConn plainFormatter) firstClient ''foo'' (VInt 1) [] (Finite 0) (firstWorld 0)
     = Inr (updConn 0 (bufAppend ''foo:1|c'') (firstWorld 0))"
  using Increment_is_Count_one
          [of "specConn plainFormatter" firstClient "''foo''" "Finite 0" "firstWorld 0"]
        Increment_first [of "Finite 0"]
  by simp

end
